theory Spec2Isabelle
  imports Main "HOL-Library.Word" "HOL-Library.AList" "HOL-Library.Multiset"
begin

section \<open>The alien snapshot: data model\<close>

text \<open>
  A shallow embedding of \<^verbatim>\<open>consensus/alien/snapshot.go\<close>.

  \<^item> \<^verbatim>\<open>common.Address\<close> and \<^verbatim>\<open>common.Hash\<close> are fixed-size byte arrays that the
    code only compares and uses as map keys; they are natural numbers here.
  \<^item> \<^verbatim>\<open>uint64\<close> is \<open>64 word\<close>: \<open>+\<close>, \<open>-\<close> wrap around, \<open>div\<close> and \<open>mod\<close>
    are the unsigned ones. Go's \<^verbatim>\<open>int\<close> and \<^verbatim>\<open>int64\<close> are 64 bits wide, so the
    conversions \<^verbatim>\<open>int(x)\<close> and \<^verbatim>\<open>int64(x)\<close> of a \<^verbatim>\<open>uint64\<close> are \<open>sint\<close>.
  \<^item> \<^verbatim>\<open>*big.Int\<close> is a reference into an explicit heap of unbounded integers: the code
    calls \<^verbatim>\<open>Add\<close> and \<^verbatim>\<open>Sub\<close> with the receiver as first operand, which overwrites
    the cell the pointer names, and several containers may hold the same pointer.
  \<^item> A Go map is an association list read through \<open>map_of\<close>;
    \<^verbatim>\<open>m[k] = v\<close> is \<open>AList.update\<close>, \<^verbatim>\<open>delete(m, k)\<close> is \<open>AList.delete\<close> and
    \<^verbatim>\<open>len(m)\<close> counts the distinct keys. The order in which \<^verbatim>\<open>range\<close> visits the keys
    is not fixed by the language: where the outcome of a loop depends on it, the order is
    an explicit argument.
  \<^item> The block numbers kept in \<^verbatim>\<open>Voters\<close> are \<^verbatim>\<open>*big.Int\<close> too (the pointer
    \<^verbatim>\<open>header.Number\<close>), but no code of the file writes through such a pointer, so they
    are kept by value. The same holds for the \<^verbatim>\<open>*common.Address\<close> entries of
    \<^verbatim>\<open>Signers\<close>. The signature cache only memoises \<^verbatim>\<open>ecrecover\<close> and is left out.
\<close>

type_synonym Address = nat
type_synonym Hash = nat
type_synonym uint64 = "64 word"
type_synonym ref = nat

record heap =
  cell :: "ref \<Rightarrow> int"
  nxt :: ref

definition rd :: "heap \<Rightarrow> ref \<Rightarrow> int" where
  "rd h p = cell h p"

definition wr :: "heap \<Rightarrow> ref \<Rightarrow> int \<Rightarrow> heap" where
  "wr h p v = h\<lparr>cell := (cell h)(p := v)\<rparr>"

text \<open>\<^verbatim>\<open>new(big.Int).Set(x)\<close> and \<^verbatim>\<open>big.NewInt(v)\<close>: a cell no pointer names yet.\<close>

definition new_Int :: "heap \<Rightarrow> int \<Rightarrow> ref \<times> heap" where
  "new_Int h v = (nxt h, h\<lparr>cell := (cell h)(nxt h := v), nxt := Suc (nxt h)\<rparr>)"

text \<open>\<^verbatim>\<open>z.Add(x, y)\<close> and \<^verbatim>\<open>z.Sub(x, y)\<close> store the result in the cell \<open>z\<close>.\<close>

definition Int_Add :: "heap \<Rightarrow> ref \<Rightarrow> ref \<Rightarrow> ref \<Rightarrow> heap" where
  "Int_Add h z x y = wr h z (rd h x + rd h y)"

definition Int_Sub :: "heap \<Rightarrow> ref \<Rightarrow> ref \<Rightarrow> ref \<Rightarrow> heap" where
  "Int_Sub h z x y = wr h z (rd h x - rd h y)"

text \<open>\<^verbatim>\<open>x.Uint64()\<close>: the low 64 bits of the absolute value.\<close>

definition Uint64 :: "int \<Rightarrow> uint64" where
  "Uint64 x = word_of_int \<bar>x\<bar>"

definition len :: "('k \<times> 'v) list \<Rightarrow> nat" where
  "len m = length (remdups (map fst m))"

definition keys_of :: "('k \<times> 'v) list \<Rightarrow> 'k list" where
  "keys_of m = remdups (map fst m)"

definition defaultFullCredit :: nat where
  "defaultFullCredit = 1000"

definition missingPublishCredit :: uint64 where
  "missingPublishCredit = 100"

definition signRewardCredit :: uint64 where
  "signRewardCredit = 10"

definition minCalSignerQueueCredit :: uint64 where
  "minCalSignerQueueCredit = 300"

datatype error =
    errInvalidVotingChain
  | errEcrecover
  | errDecode
  | panic_nil_dereference
  | panic_divide_by_zero
  | panic_slice_bounds
  | panic_index_out_of_range

record Vote =
  Voter :: Address
  Candidate :: Address
  Stake :: ref

record AlienConfig =
  Period :: uint64
  Epoch :: uint64
  MaxSignerCount :: uint64

record Snapshot =
  config :: AlienConfig
  Number :: uint64
  Hash :: Hash
  Signers :: "Address list"
  Votes :: "(Address \<times> Vote) list"
  Tally :: "(Address \<times> ref) list"
  Voters :: "(Address \<times> int) list"
  Punished :: "(Address \<times> uint64) list"
  HeaderTime :: uint64
  LoopStartTime :: uint64

text \<open>
  \<^verbatim>\<open>types.Header\<close>, \<^verbatim>\<open>HeaderExtra\<close>, \<^verbatim>\<open>ecrecover\<close>, \<^verbatim>\<open>rlp.DecodeBytes\<close> and the
  constants \<^verbatim>\<open>extraVanity\<close> and \<^verbatim>\<open>extraSeal\<close> are declared outside the file. Of a
  header the code reads the number and the time (both \<^verbatim>\<open>*big.Int\<close>), the coinbase and the
  extra bytes. The decoder is a parameter. It writes into the record it is handed, which
  \<^verbatim>\<open>apply\<close> creates with the zero value, and returns an error or \<^verbatim>\<open>nil\<close>: its result
  here is that error together with what the record holds after the call (on an error, the
  fields decoded before the failure, the others zero). The stakes it decodes are new
  \<^verbatim>\<open>big.Int\<close> values.
\<close>

record Header =
  Header_Number :: int
  Header_Time :: int
  Coinbase :: Address
  Extra :: "nat list"

record WireVote =
  wire_Voter :: Address
  wire_Candidate :: Address
  wire_Stake :: nat

record WireExtra =
  wire_LoopStartTime :: uint64
  wire_SignerQueue :: "Address list"
  wire_CurrentBlockVotes :: "WireVote list"
  wire_ModifyPredecessorVotes :: "WireVote list"
  wire_SignerMissing :: "Address list"

record HeaderExtra =
  Extra_LoopStartTime :: uint64
  SignerQueue :: "Address list"
  CurrentBlockVotes :: "Vote list"
  ModifyPredecessorVotes :: "Vote list"
  SignerMissing :: "Address list"

record env =
  ecrecover :: "Header \<Rightarrow> error + Address"
  DecodeBytes :: "nat list \<Rightarrow> error option \<times> WireExtra"
  extraVanity :: nat
  extraSeal :: nat
  Header_Hash :: "Header \<Rightarrow> Hash"
  rangeOrder :: "Address list \<Rightarrow> Address list"

section \<open>copy\<close>

text \<open>
  Each vote gets a new \<^verbatim>\<open>Vote\<close> whose stake is a new \<^verbatim>\<open>big.Int\<close>; the tally map is new
  but its values are the pointers of the source's tally.
\<close>

fun copy_Votes :: "heap \<Rightarrow> (Address \<times> Vote) list \<Rightarrow> heap \<times> (Address \<times> Vote) list" where
  "copy_Votes h [] = (h, [])"
| "copy_Votes h ((voter, vote) # vs) =
     (let (p, h1) = new_Int h (rd h (Stake vote));
          (h2, vs') = copy_Votes h1 vs
      in (h2, (voter, \<lparr>Voter = Voter vote, Candidate = Candidate vote, Stake = p\<rparr>) # vs'))"

definition copy :: "heap \<Rightarrow> Snapshot \<Rightarrow> heap \<times> Snapshot" where
  "copy h s =
     (let (h', vs) = copy_Votes h (Votes s)
      in (h', \<lparr>config = config s, Number = Number s, Hash = Hash s,
               Signers = Signers s, Votes = vs, Tally = Tally s, Voters = Voters s,
               Punished = Punished s,
               HeaderTime = HeaderTime s, LoopStartTime = LoopStartTime s\<rparr>))"

section \<open>apply\<close>

text \<open>
  The method \<^verbatim>\<open>apply\<close> is \<open>apply_headers\<close> here, since \<open>apply\<close> is a keyword of
  Isabelle. First the sanity check of the header numbers, compared as \<^verbatim>\<open>uint64\<close>.
\<close>

fun consecutive :: "Header list \<Rightarrow> bool" where
  "consecutive (h1 # h2 # hs) =
     (if Uint64 (Header_Number h2) \<noteq> Uint64 (Header_Number h1) + 1 then False
      else consecutive (h2 # hs))"
| "consecutive hs = True"

text \<open>Decoding: the payload's stakes become new heap cells.\<close>

fun alloc_Votes :: "heap \<Rightarrow> WireVote list \<Rightarrow> heap \<times> Vote list" where
  "alloc_Votes h [] = (h, [])"
| "alloc_Votes h (w # ws) =
     (let (p, h1) = new_Int h (int (wire_Stake w));
          (h2, vs) = alloc_Votes h1 ws
      in (h2, \<lparr>Voter = wire_Voter w, Candidate = wire_Candidate w, Stake = p\<rparr> # vs))"

text \<open>
  \<^verbatim>\<open>headerExtra := HeaderExtra{}; rlp.DecodeBytes(..., &headerExtra)\<close>: the error the
  decoder returns is dropped, and the loop goes on with whatever the record holds.
\<close>

definition decode_into :: "heap \<Rightarrow> error option \<times> WireExtra \<Rightarrow> heap \<times> HeaderExtra" where
  "decode_into h r =
     (let (err, w) = r;
          (h1, cur) = alloc_Votes h (wire_CurrentBlockVotes w);
          (h2, mods) = alloc_Votes h1 (wire_ModifyPredecessorVotes w)
      in (h2, \<lparr>Extra_LoopStartTime = wire_LoopStartTime w,
               SignerQueue = wire_SignerQueue w,
               CurrentBlockVotes = cur,
               ModifyPredecessorVotes = mods,
               SignerMissing = wire_SignerMissing w\<rparr>))"

text \<open>One vote of \<^verbatim>\<open>CurrentBlockVotes\<close>.\<close>

definition applyVote :: "int \<Rightarrow> heap \<times> Snapshot \<Rightarrow> Vote \<Rightarrow> heap \<times> (error + Snapshot)" where
  "applyVote number hs vote =
     (let (h, snap) = hs in
      case (case map_of (Votes snap) (Voter vote) of
              None \<Rightarrow> Inr h
            | Some lastVote \<Rightarrow>
                (case map_of (Tally snap) (Candidate lastVote) of
                   None \<Rightarrow> Inl panic_nil_dereference
                 | Some t \<Rightarrow> Inr (Int_Sub h t t (Stake lastVote)))) of
        Inl e \<Rightarrow> (h, Inl e)
      | Inr h1 \<Rightarrow>
          (let (h2, tally) =
                 (case map_of (Tally snap) (Candidate vote) of
                    Some t \<Rightarrow> (Int_Add h1 t t (Stake vote), Tally snap)
                  | None \<Rightarrow> (h1, AList.update (Candidate vote) (Stake vote) (Tally snap)))
           in (h2, Inr (snap\<lparr>
                 Tally := tally,
                 Votes := AList.update (Voter vote)
                   \<lparr>Voter = Voter vote, Candidate = Candidate vote, Stake = Stake vote\<rparr>
                   (Votes snap),
                 Voters := AList.update (Voter vote) number (Voters snap)\<rparr>))))"

fun applyVotes :: "int \<Rightarrow> heap \<times> Snapshot \<Rightarrow> Vote list \<Rightarrow> heap \<times> (error + Snapshot)" where
  "applyVotes number (h, snap) [] = (h, Inr snap)"
| "applyVotes number (h, snap) (v # vs) =
     (case applyVote number (h, snap) v of
        (h', Inl e) \<Rightarrow> (h', Inl e)
      | (h', Inr snap') \<Rightarrow> applyVotes number (h', snap') vs)"

text \<open>One entry of \<^verbatim>\<open>ModifyPredecessorVotes\<close>: the voter's block number is kept.\<close>

definition modifyVote :: "heap \<times> Snapshot \<Rightarrow> Vote \<Rightarrow> heap \<times> (error + Snapshot)" where
  "modifyVote hs txVote =
     (let (h, snap) = hs in
      case map_of (Votes snap) (Voter txVote) of
        None \<Rightarrow> (h, Inr snap)
      | Some lastVote \<Rightarrow>
          (case map_of (Tally snap) (Candidate lastVote) of
             None \<Rightarrow> (h, Inl panic_nil_dereference)
           | Some t \<Rightarrow>
               (let h1 = Int_Sub h t t (Stake lastVote);
                    h2 = Int_Add h1 t t (Stake txVote)
                in (h2, Inr (snap\<lparr>Votes := AList.update (Voter txVote)
                      \<lparr>Voter = Voter txVote, Candidate = Candidate lastVote,
                       Stake = Stake txVote\<rparr> (Votes snap)\<rparr>)))))"

fun modifyVotes :: "heap \<times> Snapshot \<Rightarrow> Vote list \<Rightarrow> heap \<times> (error + Snapshot)" where
  "modifyVotes (h, snap) [] = (h, Inr snap)"
| "modifyVotes (h, snap) (v # vs) =
     (case modifyVote (h, snap) v of
        (h', Inl e) \<Rightarrow> (h', Inl e)
      | (h', Inr snap') \<Rightarrow> modifyVotes (h', snap') vs)"

text \<open>
  The decay at an epoch block. Every key present when the loop starts is visited once;
  a visit rewrites or deletes only its own key, so the order of the visits is immaterial.
\<close>

definition halve_one :: "Address \<Rightarrow> (Address \<times> uint64) list \<Rightarrow> (Address \<times> uint64) list" where
  "halve_one bePublished ps =
     (case map_of ps bePublished of
        None \<Rightarrow> ps
      | Some c \<Rightarrow>
          (if c div 2 > 0 then AList.update bePublished (c div 2) ps
           else AList.delete bePublished ps))"

definition halvePunished :: "(Address \<times> uint64) list \<Rightarrow> (Address \<times> uint64) list" where
  "halvePunished ps = fold halve_one (keys_of ps) ps"

definition punish_one :: "Address \<Rightarrow> (Address \<times> uint64) list \<Rightarrow> (Address \<times> uint64) list" where
  "punish_one signerMissing ps =
     (case map_of ps signerMissing of
        Some c \<Rightarrow> AList.update signerMissing (c + missingPublishCredit) ps
      | None \<Rightarrow> AList.update signerMissing missingPublishCredit ps)"

definition punishMissing :: "Address list \<Rightarrow> (Address \<times> uint64) list \<Rightarrow> (Address \<times> uint64) list" where
  "punishMissing missing ps = fold punish_one missing ps"

text \<open>
  The reward of the block's producer: \<^verbatim>\<open>snap.Punished[coinbase] -= signRewardCredit\<close> on
  a \<^verbatim>\<open>uint64\<close>, then the test \<^verbatim>\<open><= 0\<close> on the stored value.
\<close>

definition rewardSigner :: "Address \<Rightarrow> (Address \<times> uint64) list \<Rightarrow> (Address \<times> uint64) list" where
  "rewardSigner coinbase ps =
     (case map_of ps coinbase of
        None \<Rightarrow> ps
      | Some c \<Rightarrow>
          (let ps' = AList.update coinbase (c - signRewardCredit) ps
           in if c - signRewardCredit \<le> 0 then AList.delete coinbase ps' else ps'))"

text \<open>The body of the loop over the headers.\<close>

definition applyHeader :: "env \<Rightarrow> heap \<times> Snapshot \<Rightarrow> Header \<Rightarrow> heap \<times> (error + Snapshot)" where
  "applyHeader E hs header =
     (let (h, snap) = hs in
      case ecrecover E header of
        Inl e \<Rightarrow> (h, Inl e)
      | Inr signer \<Rightarrow>
          if length (Extra header) < extraVanity E + extraSeal E
          then (h, Inl panic_slice_bounds)
          else
            (let (h1, headerExtra) =
                   decode_into h (DecodeBytes E
                     (take (length (Extra header) - extraSeal E - extraVanity E)
                        (drop (extraVanity E) (Extra header))));
                 snap1 = snap\<lparr>HeaderTime := Uint64 (Header_Time header),
                              LoopStartTime := Extra_LoopStartTime headerExtra,
                              Signers := SignerQueue headerExtra\<rparr>
             in case applyVotes (Header_Number header) (h1, snap1)
                       (CurrentBlockVotes headerExtra) of
                  (h2, Inl e) \<Rightarrow> (h2, Inl e)
                | (h2, Inr snap2) \<Rightarrow>
                    (case modifyVotes (h2, snap2) (ModifyPredecessorVotes headerExtra) of
                       (h3, Inl e) \<Rightarrow> (h3, Inl e)
                     | (h3, Inr snap3) \<Rightarrow>
                         if Epoch (config snap3) = 0 then (h3, Inl panic_divide_by_zero)
                         else
                           (let p1 = (if Uint64 (Header_Number header) mod Epoch (config snap3) = 0
                                      then halvePunished (Punished snap3)
                                      else Punished snap3);
                                p2 = punishMissing (SignerMissing headerExtra) p1;
                                p3 = rewardSigner (Coinbase header) p2
                            in (h3, Inr (snap3\<lparr>Punished := p3\<rparr>))))))"

fun applyHeaders :: "env \<Rightarrow> heap \<times> Snapshot \<Rightarrow> Header list \<Rightarrow> heap \<times> (error + Snapshot)" where
  "applyHeaders E (h, snap) [] = (h, Inr snap)"
| "applyHeaders E (h, snap) (header # headers) =
     (case applyHeader E (h, snap) header of
        (h', Inl e) \<Rightarrow> (h', Inl e)
      | (h', Inr snap') \<Rightarrow> applyHeaders E (h', snap') headers)"

text \<open>
  The expiry of old votes. \<open>order\<close> is the order in which \<^verbatim>\<open>range snap.Voters\<close> yields the
  keys; a key deleted before it is reached is not produced. The loop stops at the first
  visit that finds the voters or the tally at or below \<^verbatim>\<open>int(MaxSignerCount)\<close>.
  \<open>cfg\<close> is \<^verbatim>\<open>s.config\<close>, the configuration of the snapshot \<^verbatim>\<open>apply\<close> was called on.
\<close>

definition expireVote :: "heap \<times> Snapshot \<Rightarrow> Address \<Rightarrow> heap \<times> (error + Snapshot)" where
  "expireVote hs voterAddress =
     (let (h, snap) = hs in
      case map_of (Votes snap) voterAddress of
        None \<Rightarrow> (h, Inr snap)
      | Some expiredVote \<Rightarrow>
          (case map_of (Tally snap) (Candidate expiredVote) of
             None \<Rightarrow> (h, Inl panic_nil_dereference)
           | Some t \<Rightarrow>
               (let h1 = Int_Sub h t t (Stake expiredVote);
                    tally = (if rd h1 t = 0
                             then AList.delete (Candidate expiredVote) (Tally snap)
                             else Tally snap)
                in (h1, Inr (snap\<lparr>Tally := tally,
                      Votes := AList.delete (Voter expiredVote) (Votes snap),
                      Voters := AList.delete (Voter expiredVote) (Voters snap)\<rparr>)))))"

fun expireVotes ::
  "AlienConfig \<Rightarrow> heap \<times> Snapshot \<Rightarrow> Address list \<Rightarrow> heap \<times> (error + Snapshot)" where
  "expireVotes cfg (h, snap) [] = (h, Inr snap)"
| "expireVotes cfg (h, snap) (voterAddress # rest) =
     (case map_of (Voters snap) voterAddress of
        None \<Rightarrow> expireVotes cfg (h, snap) rest
      | Some voteNumber \<Rightarrow>
          if int (len (Voters snap)) \<le> sint (MaxSignerCount cfg)
             \<or> int (len (Tally snap)) \<le> sint (MaxSignerCount cfg)
          then (h, Inr snap)
          else if Number snap - Uint64 voteNumber > Epoch cfg
          then (case expireVote (h, snap) voterAddress of
                  (h', Inl e) \<Rightarrow> (h', Inl e)
                | (h', Inr snap') \<Rightarrow> expireVotes cfg (h', snap') rest)
          else expireVotes cfg (h, snap) rest)"

text \<open>The last sweep: every tally entry whose value is zero or negative is deleted.\<close>

definition sweep_one :: "heap \<Rightarrow> Address \<Rightarrow> (Address \<times> ref) list \<Rightarrow> (Address \<times> ref) list" where
  "sweep_one h address tally =
     (case map_of tally address of
        None \<Rightarrow> tally
      | Some t \<Rightarrow> if rd h t \<le> 0 then AList.delete address tally else tally)"

definition sweepTally :: "heap \<Rightarrow> (Address \<times> ref) list \<Rightarrow> (Address \<times> ref) list" where
  "sweepTally h tally = fold (sweep_one h) (keys_of tally) tally"

definition apply_headers :: "env \<Rightarrow> heap \<Rightarrow> Snapshot \<Rightarrow> Header list \<Rightarrow> heap \<times> (error + Snapshot)" where
  "apply_headers E h s headers =
     (if headers = [] then (h, Inr s)
      else if \<not> consecutive headers then (h, Inl errInvalidVotingChain)
      else if Uint64 (Header_Number (hd headers)) \<noteq> Number s + 1
      then (h, Inl errInvalidVotingChain)
      else
        (let (h0, snap) = copy h s in
         case applyHeaders E (h0, snap) headers of
           (h1, Inl e) \<Rightarrow> (h1, Inl e)
         | (h1, Inr snap1) \<Rightarrow>
             (let snap2 = snap1\<lparr>Number := Number snap1 + of_nat (length headers),
                                Hash := Header_Hash E (last headers)\<rparr>
              in case expireVotes (config s) (h1, snap2)
                        (rangeOrder E (keys_of (Voters snap2))) of
                   (h2, Inl e) \<Rightarrow> (h2, Inl e)
                 | (h2, Inr snap3) \<Rightarrow>
                     (h2, Inr (snap3\<lparr>Tally := sweepTally h2 (Tally snap3)\<rparr>)))))"

text \<open>
  Every snapshot the file builds stores a vote under its own voter: \<^verbatim>\<open>newSnapshot\<close>,
  \<^verbatim>\<open>copy\<close> and \<^verbatim>\<open>apply\<close> all write \<^verbatim>\<open>Votes[vote.Voter]\<close>.
\<close>

definition keyed :: "(Address \<times> Vote) list \<Rightarrow> bool" where
  "keyed vs = list_all (\<lambda>(voter, vote). Voter vote = voter) vs"

text \<open>
  The tally invariant, candidate by candidate: every tally cell holds the sum of the
  stakes of the votes that name its candidate. It can only be kept by arithmetic in place
  when no two tally entries share a cell, no candidate has two entries and no vote's stake
  is a tally cell.
\<close>

definition stake_for :: "heap \<Rightarrow> (Address \<times> Vote) list \<Rightarrow> Address \<Rightarrow> int" where
  "stake_for h vs c =
     sum_list (map (\<lambda>k. case map_of vs k of
                           None \<Rightarrow> 0
                         | Some vote \<Rightarrow> if Candidate vote = c then rd h (Stake vote) else 0)
                 (keys_of vs))"

definition tally_matches :: "heap \<Rightarrow> Snapshot \<Rightarrow> bool" where
  "tally_matches h snap =
     list_all (\<lambda>(c, t). rd h t = stake_for h (Votes snap) c) (Tally snap)"

definition unshared :: "Snapshot \<Rightarrow> bool" where
  "unshared snap \<longleftrightarrow>
     distinct (map fst (Tally snap)) \<and> distinct (map snd (Tally snap)) \<and>
     list_all (\<lambda>(k, vote). Stake vote \<notin> set (map snd (Tally snap))) (Votes snap)"

section \<open>inturn\<close>

text \<open>Go's \<^verbatim>\<open>%\<close> on \<^verbatim>\<open>int\<close> truncates towards zero: the result has the dividend's sign.\<close>

definition go_rem :: "int \<Rightarrow> int \<Rightarrow> int" where
  "go_rem a b = sgn a * (\<bar>a\<bar> mod \<bar>b\<bar>)"

text \<open>
  Both \<^verbatim>\<open>/\<close> by a zero period and \<^verbatim>\<open>%\<close> by an empty signer list panic, and so does an
  index below zero; the subtraction of the times is the one of \<^verbatim>\<open>uint64\<close>.
\<close>

definition inturn :: "Snapshot \<Rightarrow> Address \<Rightarrow> uint64 \<Rightarrow> error + bool" where
  "inturn s signer headerTime =
     (if Period (config s) = 0 then Inl panic_divide_by_zero
      else if length (Signers s) = 0 then Inl panic_divide_by_zero
      else
        (let loopIndex =
               go_rem (sint ((headerTime - LoopStartTime s) div Period (config s)))
                 (int (length (Signers s)))
         in if loopIndex \<ge> int (length (Signers s)) then Inr False
            else if loopIndex < 0 then Inl panic_index_out_of_range
            else if Signers s ! nat loopIndex \<noteq> signer then Inr False
            else Inr True))"

section \<open>getSignerQueue\<close>

record TallyItem =
  addr :: Address
  stake :: int

text \<open>
  The weight of one candidate. \<^verbatim>\<open>defaultFullCredit - s.Punished[address]\<close> is computed
  in \<^verbatim>\<open>uint64\<close>, compared with the floor in \<^verbatim>\<open>uint64\<close> and converted by \<^verbatim>\<open>int64(...)\<close>.
  The product is a new \<^verbatim>\<open>big.Int\<close> that nothing else names, kept by value.
\<close>

definition tallyItem :: "heap \<Rightarrow> Snapshot \<Rightarrow> Address \<Rightarrow> ref \<Rightarrow> TallyItem" where
  "tallyItem h s address t =
     (case map_of (Punished s) address of
        Some punished \<Rightarrow>
          (let creditWeight = of_nat defaultFullCredit - punished;
               creditWeight' = (if creditWeight < minCalSignerQueueCredit
                                then minCalSignerQueueCredit else creditWeight)
           in \<lparr>addr = address, stake = rd h t * sint creditWeight'\<rparr>)
      | None \<Rightarrow> \<lparr>addr = address, stake = rd h t * int defaultFullCredit\<rparr>)"

fun collect :: "heap \<Rightarrow> Snapshot \<Rightarrow> Address list \<Rightarrow> TallyItem list" where
  "collect h s [] = []"
| "collect h s (address # rest) =
     (case map_of (Tally s) address of
        None \<Rightarrow> collect h s rest
      | Some t \<Rightarrow> tallyItem h s address t # collect h s rest)"

text \<open>
  \<^verbatim>\<open>sort.Sort\<close> with \<^verbatim>\<open>Less(i, j) = s[i].stake > s[j].stake\<close>: descending by weight.
  The library's sort is not stable and the tally is visited in an arbitrary order; a
  stable sort after an arbitrary order of visit yields every outcome the two can have.
\<close>

definition sort_Sort :: "TallyItem list \<Rightarrow> TallyItem list" where
  "sort_Sort items = sort_key (\<lambda>item. - stake item) items"

text \<open>
  The last loop swaps position \<open>i\<close> with position \<^verbatim>\<open>rand.Int() % len\<close>. The generator is
  the process-wide one of \<^verbatim>\<open>math/rand\<close>, which the file never seeds: \<open>rand_Int k\<close> is the
  value its \<open>k\<close>-th call returns.
\<close>

function shuffle :: "(nat \<Rightarrow> nat) \<Rightarrow> nat \<Rightarrow> Address list \<Rightarrow> Address list" where
  "shuffle rand_Int i topStakeAddress =
     (if i < length topStakeAddress
      then (let newPos = rand_Int i mod length topStakeAddress
            in shuffle rand_Int (Suc i)
                 (topStakeAddress[i := topStakeAddress ! newPos,
                                  newPos := topStakeAddress ! i]))
      else topStakeAddress)"
  by pat_completeness auto
termination
  by (relation "measure (\<lambda>(r, i, xs). length xs - i)") auto

definition getSignerQueue ::
  "(Address list \<Rightarrow> Address list) \<Rightarrow> (nat \<Rightarrow> nat) \<Rightarrow> heap \<Rightarrow> Snapshot \<Rightarrow> error + Address list" where
  "getSignerQueue order rand_Int h s =
     (let tallySlice = sort_Sort (collect h s (order (keys_of (Tally s))));
          queueLength = (if sint (MaxSignerCount (config s)) > int (length tallySlice)
                         then int (length tallySlice)
                         else sint (MaxSignerCount (config s)))
      in if queueLength < 0 then Inl panic_slice_bounds
         else Inr (shuffle rand_Int 0 (map addr (take (nat queueLength) tallySlice))))"

text \<open>The weights of the candidates as the sort leaves them, heaviest first.\<close>

definition ranked_weights :: "heap \<Rightarrow> Snapshot \<Rightarrow> int list" where
  "ranked_weights h s = map stake (sort_Sort (collect h s (keys_of (Tally s))))"

section \<open>Observations and concrete inputs\<close>

text \<open>The two sides of the tally invariant, read off a snapshot through the heap.\<close>

definition tally_total :: "heap \<Rightarrow> Snapshot \<Rightarrow> int" where
  "tally_total h s = sum_list (map (\<lambda>(candidate, t). rd h t) (Tally s))"

definition stake_total :: "heap \<Rightarrow> Snapshot \<Rightarrow> int" where
  "stake_total h s = sum_list (map (\<lambda>(voter, vote). rd h (Stake vote)) (Votes s))"

text \<open>
  A small decoder for the concrete inputs: the payload is a sequence of votes, three
  numbers each (voter, candidate, stake). Bytes left over at the end do not decode: the
  decoder fails, with the votes before them in the record.
\<close>

fun toy_votes :: "nat list \<Rightarrow> error option \<times> WireVote list" where
  "toy_votes [] = (None, [])"
| "toy_votes (v # c # st # rest) =
     (let (err, ws) = toy_votes rest
      in (err, \<lparr>wire_Voter = v, wire_Candidate = c, wire_Stake = st\<rparr> # ws))"
| "toy_votes bs = (Some errDecode, [])"

definition toy_decode :: "nat list \<Rightarrow> error option \<times> WireExtra" where
  "toy_decode bs =
     (let (err, ws) = toy_votes bs
      in (err, \<lparr>wire_LoopStartTime = 0, wire_SignerQueue = [], wire_CurrentBlockVotes = ws,
                wire_ModifyPredecessorVotes = [], wire_SignerMissing = []\<rparr>))"

definition env0 :: env where
  "env0 = \<lparr>ecrecover = (\<lambda>header. Inr (Coinbase header)), DecodeBytes = toy_decode,
           extraVanity = 0, extraSeal = 0,
           Header_Hash = (\<lambda>header. nat \<bar>Header_Number header\<bar>),
           rangeOrder = (\<lambda>ks. ks)\<rparr>"

definition cfg0 :: AlienConfig where
  "cfg0 = \<lparr>Period = 3, Epoch = 10, MaxSignerCount = 21\<rparr>"

text \<open>
  A snapshot at block 0 in which voter 1 backs candidate 7 with stake 5: the tally cell
  is 0, the stake cell is 1.
\<close>

definition heap1 :: heap where
  "heap1 = \<lparr>cell = (\<lambda>p. 0)(0 := 5, 1 := 5), nxt = 2\<rparr>"

definition snap1 :: Snapshot where
  "snap1 = \<lparr>config = cfg0, Number = 0, Hash = 0, Signers = [],
            Votes = [(1, \<lparr>Voter = 1, Candidate = 7, Stake = 1\<rparr>)],
            Tally = [(7, 0)], Voters = [(1, 0)], Punished = [],
            HeaderTime = 0, LoopStartTime = 0\<rparr>"

text \<open>Block 1, produced by 9, in which voter 2 backs candidate 7 with stake 3.\<close>

definition header1 :: Header where
  "header1 = \<lparr>Header_Number = 1, Header_Time = 100, Coinbase = 9, Extra = [2, 7, 3]\<rparr>"

text \<open>Block 1 with a payload that does not decode.\<close>

definition header_undecodable :: Header where
  "header_undecodable = \<lparr>Header_Number = 1, Header_Time = 100, Coinbase = 9, Extra = [4]\<rparr>"

text \<open>The producer 9 of block 1 carries a punishment of 5.\<close>

definition snap_punished :: Snapshot where
  "snap_punished = snap1\<lparr>Punished := [(9, 5)]\<rparr>"

text \<open>
  An empty ledger, then block 1 in which voters 1 and 2 back candidate 7 with stakes 5
  and 3, and block 2 in which voter 1 moves its stake 5 to candidate 8.
\<close>

definition heap_empty :: heap where
  "heap_empty = \<lparr>cell = (\<lambda>p. 0), nxt = 0\<rparr>"

definition snap_empty :: Snapshot where
  "snap_empty = \<lparr>config = cfg0, Number = 0, Hash = 0, Signers = [],
                 Votes = [], Tally = [], Voters = [], Punished = [],
                 HeaderTime = 0, LoopStartTime = 0\<rparr>"

definition header_two_votes :: Header where
  "header_two_votes =
     \<lparr>Header_Number = 1, Header_Time = 100, Coinbase = 9, Extra = [1, 7, 5, 2, 7, 3]\<rparr>"

definition header_revote :: Header where
  "header_revote = \<lparr>Header_Number = 2, Header_Time = 103, Coinbase = 9, Extra = [1, 8, 5]\<rparr>"

definition header3 :: Header where
  "header3 = \<lparr>Header_Number = 3, Header_Time = 106, Coinbase = 9, Extra = []\<rparr>"

text \<open>
  Two candidates and one seat: candidate 1 has stake 100 and punishment 1100,
  candidate 2 has stake 1 and no punishment.
\<close>

definition heap_queue :: heap where
  "heap_queue = \<lparr>cell = (\<lambda>p. 0)(0 := 100, 1 := 1), nxt = 2\<rparr>"

definition snap_queue :: Snapshot where
  "snap_queue = \<lparr>config = \<lparr>Period = 3, Epoch = 10, MaxSignerCount = 1\<rparr>,
                 Number = 0, Hash = 0, Signers = [],
                 Votes = [], Tally = [(1, 0), (2, 1)], Voters = [],
                 Punished = [(1, 1100)], HeaderTime = 0, LoopStartTime = 0\<rparr>"

text \<open>The same two candidates, unpunished, with room for both.\<close>

definition snap_pair :: Snapshot where
  "snap_pair = \<lparr>config = cfg0, Number = 0, Hash = 0, Signers = [],
                Votes = [], Tally = [(1, 0), (2, 1)], Voters = [],
                Punished = [], HeaderTime = 0, LoopStartTime = 0\<rparr>"

text \<open>Three candidates with stake 1 each, unpunished, and one seat.\<close>

definition heap_tie :: heap where
  "heap_tie = \<lparr>cell = (\<lambda>p. 0)(0 := 1, 1 := 1, 2 := 1), nxt = 3\<rparr>"

definition snap_tie :: Snapshot where
  "snap_tie = \<lparr>config = \<lparr>Period = 3, Epoch = 10, MaxSignerCount = 1\<rparr>,
               Number = 0, Hash = 0, Signers = [],
               Votes = [], Tally = [(1, 0), (2, 1), (3, 2)], Voters = [],
               Punished = [], HeaderTime = 0, LoopStartTime = 0\<rparr>"

text \<open>A rotation of three signers with period 2 (and 3) and a loop that starts at time 1 (and 100).\<close>

definition snap_turn :: Snapshot where
  "snap_turn = \<lparr>config = \<lparr>Period = 2, Epoch = 10, MaxSignerCount = 3\<rparr>,
                Number = 0, Hash = 0, Signers = [10, 11, 12],
                Votes = [], Tally = [], Voters = [], Punished = [],
                HeaderTime = 0, LoopStartTime = 1\<rparr>"

definition snap_turn' :: Snapshot where
  "snap_turn' = \<lparr>config = cfg0, Number = 0, Hash = 0, Signers = [10, 11, 12],
                 Votes = [], Tally = [], Voters = [], Punished = [],
                 HeaderTime = 0, LoopStartTime = 100\<rparr>"

text \<open>
  Block 100 with two seats and an epoch of 10: voters 1, 2 and 3 back candidates 7, 8 and
  9 with stakes 5, 6 and 7 since blocks 5, 95 and 6.
\<close>

definition heap_expiry :: heap where
  "heap_expiry = \<lparr>cell = (\<lambda>p. 0)(0 := 5, 1 := 6, 2 := 7, 3 := 5, 4 := 6, 5 := 7), nxt = 6\<rparr>"

definition snap_expiry :: Snapshot where
  "snap_expiry = \<lparr>config = \<lparr>Period = 3, Epoch = 10, MaxSignerCount = 2\<rparr>,
                  Number = 100, Hash = 0, Signers = [],
                  Votes = [(1, \<lparr>Voter = 1, Candidate = 7, Stake = 3\<rparr>),
                           (2, \<lparr>Voter = 2, Candidate = 8, Stake = 4\<rparr>),
                           (3, \<lparr>Voter = 3, Candidate = 9, Stake = 5\<rparr>)],
                  Tally = [(7, 0), (8, 1), (9, 2)],
                  Voters = [(1, 5), (2, 95), (3, 6)], Punished = [],
                  HeaderTime = 0, LoopStartTime = 0\<rparr>"

text \<open>
  Inputs for the expiry of votes: headers with an empty payload, the ledger of
  \<open>snap_expiry\<close> with no seat (so that the loop is never stopped), with a seat count of
  \<open>2 ^ 63\<close>, with a recorded block number that is negative or ahead of the snapshot and
  with a vote stored under another voter, and the snapshots that \<^verbatim>\<open>apply\<close> reaches on some of them after the loop over
  the headers and at its end.
\<close>

definition header101 :: Header where
  "header101 = \<lparr>Header_Number = 101, Header_Time = 300, Coinbase = 9, Extra = []\<rparr>"

definition header21 :: Header where
  "header21 = \<lparr>Header_Number = 21, Header_Time = 160, Coinbase = 9, Extra = []\<rparr>"

definition header4 :: Header where
  "header4 = \<lparr>Header_Number = 4, Header_Time = 109, Coinbase = 9, Extra = []\<rparr>"

definition snap_open :: Snapshot where
  "snap_open = snap_expiry\<lparr>config := \<lparr>Period = 3, Epoch = 10, MaxSignerCount = 0\<rparr>\<rparr>"

definition snap_huge :: Snapshot where
  "snap_huge = snap1\<lparr>config := \<lparr>Period = 3, Epoch = 10, MaxSignerCount = 9223372036854775808\<rparr>,
      Number := 20\<rparr>"

definition snap_small :: Snapshot where
  "snap_small = snap_empty\<lparr>config := \<lparr>Period = 3, Epoch = 2, MaxSignerCount = 0\<rparr>\<rparr>"

definition snap_negative :: Snapshot where
  "snap_negative = snap_open\<lparr>Voters := [(1, - 95), (2, 95), (3, 6)]\<rparr>"

definition snap_ahead :: Snapshot where
  "snap_ahead = snap_open\<lparr>Voters := [(1, 5), (2, 200), (3, 6)]\<rparr>"

definition snap_miskeyed :: Snapshot where
  "snap_miskeyed = snap_open\<lparr>Votes := [(1, \<lparr>Voter = 2, Candidate = 7, Stake = 3\<rparr>),
                           (2, \<lparr>Voter = 2, Candidate = 8, Stake = 4\<rparr>),
                           (3, \<lparr>Voter = 3, Candidate = 9, Stake = 5\<rparr>)]\<rparr>"


definition snap_open_loop :: Snapshot where
  "snap_open_loop = \<lparr>config = \<lparr>Period = 3, Epoch = 10, MaxSignerCount = 0\<rparr>,
        Number = 100, Hash = 0, Signers = [],
        Votes = [(1, \<lparr>Voter = 1, Candidate = 7, Stake = 6\<rparr>),
                 (2, \<lparr>Voter = 2, Candidate = 8, Stake = 7\<rparr>),
                 (3, \<lparr>Voter = 3, Candidate = 9, Stake = 8\<rparr>)],
        Tally = [(7, 0), (8, 1), (9, 2)],
        Voters = [(1, 5), (2, 95), (3, 6)], Punished = [], HeaderTime = 300,
        LoopStartTime = 0\<rparr>"

definition snap_open_final :: Snapshot where
  "snap_open_final = \<lparr>config = \<lparr>Period = 3, Epoch = 10, MaxSignerCount = 0\<rparr>,
        Number = 101, Hash = 101, Signers = [],
        Votes = [(2, \<lparr>Voter = 2, Candidate = 8, Stake = 7\<rparr>)],
        Tally = [(8, 1)], Voters = [(2, 95)], Punished = [],
        HeaderTime = 300, LoopStartTime = 0\<rparr>"

definition snap1_loop :: Snapshot where
  "snap1_loop = \<lparr>config = cfg0, Number = 0, Hash = 0, Signers = [],
        Votes = [(1, \<lparr>Voter = 1, Candidate = 7, Stake = 2\<rparr>),
                 (2, \<lparr>Voter = 2, Candidate = 7, Stake = 3\<rparr>)],
        Tally = [(7, 0)], Voters = [(1, 0), (2, 1)], Punished = [],
        HeaderTime = 100, LoopStartTime = 0\<rparr>"

definition snap1_final :: Snapshot where
  "snap1_final = snap1_loop\<lparr>Number := 1, Hash := 1\<rparr>"

text \<open>Headers whose numbers are \<open>2 ^ 64 + 1\<close> and \<open>2 ^ 64 + 2\<close>, with an empty payload.\<close>

definition header_far :: Header where
  "header_far =
     \<lparr>Header_Number = 18446744073709551617, Header_Time = 100, Coinbase = 9, Extra = []\<rparr>"

definition header_far2 :: Header where
  "header_far2 =
     \<lparr>Header_Number = 18446744073709551618, Header_Time = 103, Coinbase = 9, Extra = []\<rparr>"

section \<open>Auxiliary facts\<close>

declare shuffle.simps [simp del]

lemmas heap_defs = rd_def wr_def new_Int_def Int_Add_def Int_Sub_def

lemmas apply_defs =
  apply_headers_def Uint64_def copy_def applyHeader_def decode_into_def toy_decode_def
  applyVote_def modifyVote_def rewardSigner_def punishMissing_def punish_one_def
  halvePunished_def halve_one_def expireVote_def len_def keys_of_def sweepTally_def
  sweep_one_def signRewardCredit_def missingPublishCredit_def Let_def

lemmas input_defs =
  env0_def cfg0_def heap1_def snap1_def header1_def header_undecodable_def
  snap_punished_def heap_empty_def snap_empty_def header_two_votes_def header_revote_def
  header3_def

lemmas queue_defs =
  getSignerQueue_def sort_Sort_def tallyItem_def keys_of_def defaultFullCredit_def
  minCalSignerQueueCredit_def rd_def heap_queue_def snap_queue_def snap_pair_def cfg0_def
  heap_tie_def snap_tie_def ranked_weights_def Let_def

lemmas expiry_defs =
  snap_open_def snap_expiry_def heap_expiry_def header101_def snap_open_loop_def
  snap_open_final_def snap1_loop_def snap1_final_def

text \<open>A word below \<open>2 ^ 63\<close> keeps its value under the conversion to \<^verbatim>\<open>int\<close>.\<close>

lemma sint_small:
  fixes w :: uint64
  assumes "unat w < 2 ^ 63"
  shows "sint w = int (unat w)"
proof -
  have lo: "- (2 ^ 63) \<le> uint w"
  proof -
    have "(- (2 ^ 63) :: int) \<le> 0" by simp
    also have "0 \<le> uint w" by simp
    finally show ?thesis .
  qed
  have "int (unat w) < int (2 ^ 63)" using assms by (rule iffD2 [OF of_nat_less_iff])
  then have hi: "uint w < 2 ^ 63" by (simp only: uint_nat of_nat_power of_nat_numeral)
  have "sint w = signed_take_bit 63 (uint w)" by (simp add: sint_uint)
  also have "\<dots> = uint w" using lo hi by (rule signed_take_bit_int_eq_self)
  finally show ?thesis by (simp only: uint_nat)
qed

lemma go_rem_nonneg: "0 \<le> a \<Longrightarrow> 0 < b \<Longrightarrow> go_rem a b = a mod b"
  by (cases "a = 0") (simp_all add: go_rem_def)

text \<open>
  For a recorded block number between 0 and the snapshot's number, the \<^verbatim>\<open>uint64\<close>
  difference is the distance in blocks.
\<close>

lemma age_uint:
  fixes N :: uint64
  assumes "0 \<le> n" "n \<le> uint N"
  shows "uint (N - Uint64 n) = uint N - n"
proof -
  have "uint N < 2 ^ 64" using uint_bounded [of N] by simp
  with assms have u: "uint (word_of_int n :: uint64) = n"
    by (simp add: uint_word_of_int take_bit_int_eq_self)
  with assms have "(word_of_int n :: uint64) \<le> N" by (simp add: word_le_def)
  then have "uint (N - word_of_int n) = uint N - uint (word_of_int n :: uint64)"
    by (rule uint_sub_lem [THEN iffD1, OF iffD1 [OF word_le_def]])
  with u assms show ?thesis by (simp add: Uint64_def)
qed

lemma expired_iff:
  fixes N :: uint64
  assumes "0 \<le> n" "n \<le> uint N"
  shows "E < N - Uint64 n \<longleftrightarrow> uint E < uint N - n"
  using age_uint [OF assms] by (simp add: word_less_def)

lemma expireVotes_stop:
  assumes "int (len (Voters snap)) \<le> sint (MaxSignerCount cfg)
           \<or> int (len (Tally snap)) \<le> sint (MaxSignerCount cfg)"
  shows "expireVotes cfg (h, snap) order = (h, Inr snap)"
  using assms by (induction order) (auto split: option.splits)

text \<open>
  On numbers from 0 to \<open>2 ^ 64 - 1\<close>, \<^verbatim>\<open>Uint64\<close> loses nothing, and below \<open>2 ^ 64 - 1\<close> the
  \<^verbatim>\<open>uint64\<close> successor is the successor.
\<close>

lemma word_of_int_eq_iff_64:
  assumes "0 \<le> a" "a < 2 ^ 64" "0 \<le> b" "b < 2 ^ 64"
  shows "(word_of_int a :: uint64) = word_of_int b \<longleftrightarrow> a = b"
proof -
  have "take_bit 64 a = a" using assms by (simp add: take_bit_int_eq_self)
  moreover have "take_bit 64 b = b" using assms by (simp add: take_bit_int_eq_self)
  ultimately show ?thesis by (simp add: word_of_int_eq_iff)
qed

lemma Uint64_succ_iff:
  assumes "0 \<le> a" "a < 2 ^ 64" "0 \<le> b" "b < 2 ^ 64 - 1"
  shows "Uint64 a = Uint64 b + 1 \<longleftrightarrow> a = b + 1"
proof -
  have "Uint64 b + 1 = word_of_int (b + 1)" using assms by (simp add: Uint64_def)
  moreover have "Uint64 a = word_of_int a" using assms by (simp add: Uint64_def)
  moreover have "(word_of_int a :: uint64) = word_of_int (b + 1) \<longleftrightarrow> a = b + 1"
    using assms by (intro word_of_int_eq_iff_64) simp_all
  ultimately show ?thesis by simp
qed

lemma Uint64_start_iff:
  fixes N :: uint64
  assumes "0 \<le> a" "a < 2 ^ 64" "uint N < 2 ^ 64 - 1"
  shows "Uint64 a = N + 1 \<longleftrightarrow> a = uint N + 1"
proof -
  have "N + 1 = Uint64 (uint N) + 1" by (simp add: Uint64_def)
  moreover have "Uint64 a = Uint64 (uint N) + 1 \<longleftrightarrow> a = uint N + 1"
    using assms by (intro Uint64_succ_iff) simp_all
  ultimately show ?thesis by simp
qed

text \<open>The sanity loop accepts exactly the lists whose neighbours differ by one.\<close>

lemma consecutive_nth:
  "consecutive hs \<longleftrightarrow>
     (\<forall>i. Suc i < length hs \<longrightarrow>
        Uint64 (Header_Number (hs ! Suc i)) = Uint64 (Header_Number (hs ! i)) + 1)"
proof (induction hs rule: consecutive.induct)
  case (1 h1 h2 hs)
  let ?step = "\<lambda>xs i. Uint64 (Header_Number (xs ! Suc i)) = Uint64 (Header_Number (xs ! i)) + 1"
  show ?case
  proof (cases "Uint64 (Header_Number h2) = Uint64 (Header_Number h1) + 1")
    case True
    have "(\<forall>i. Suc i < length (h1 # h2 # hs) \<longrightarrow> ?step (h1 # h2 # hs) i)
      \<longleftrightarrow> (\<forall>i. Suc i < length (h2 # hs) \<longrightarrow> ?step (h2 # hs) i)"
      (is "?L \<longleftrightarrow> ?R")
    proof
      assume l: ?L
      show ?R
      proof (intro allI impI)
        fix i assume "Suc i < length (h2 # hs)"
        then have "Suc (Suc i) < length (h1 # h2 # hs)" by simp
        with l have "?step (h1 # h2 # hs) (Suc i)" by blast
        then show "?step (h2 # hs) i" by simp
      qed
    next
      assume r: ?R
      show ?L
      proof (intro allI impI)
        fix i assume i: "Suc i < length (h1 # h2 # hs)"
        show "?step (h1 # h2 # hs) i"
        proof (cases i)
          case 0
          with True show ?thesis by simp
        next
          case (Suc j)
          with i have "Suc j < length (h2 # hs)" by simp
          with r have "?step (h2 # hs) j" by blast
          with Suc show ?thesis by simp
        qed
      qed
    qed
    with 1 True show ?thesis by simp
  next
    case False
    have "\<not> (\<forall>i. Suc i < length (h1 # h2 # hs) \<longrightarrow> ?step (h1 # h2 # hs) i)"
    proof
      assume "\<forall>i. Suc i < length (h1 # h2 # hs) \<longrightarrow> ?step (h1 # h2 # hs) i"
      then have "Suc 0 < length (h1 # h2 # hs) \<longrightarrow> ?step (h1 # h2 # hs) 0" by blast
      with False show False by simp
    qed
    with False show ?thesis by simp
  qed
qed simp_all

text \<open>The last loop of the queue selection only swaps entries.\<close>

lemma mset_shuffle: "mset (shuffle r i xs) = mset xs"
proof (induction r i xs rule: shuffle.induct)
  case (1 r i xs)
  show ?case
  proof (cases "i < length xs")
    case True
    then have "0 < length xs" by linarith
    then have j: "r i mod length xs < length xs" by (rule mod_less_divisor)
    from True j have sw:
      "mset (xs[i := xs ! (r i mod length xs), r i mod length xs := xs ! i]) = mset xs"
      by (simp add: mset_swap)
    have "shuffle r i xs =
        shuffle r (Suc i) (xs[i := xs ! (r i mod length xs), r i mod length xs := xs ! i])"
      using True by (subst shuffle.simps) (simp add: Let_def)
    with 1 [OF True refl] sw show ?thesis by simp
  next
    case False
    then show ?thesis by (subst shuffle.simps) simp
  qed
qed

text \<open>
  The expiry loop. Votes stay stored under their voter through \<^verbatim>\<open>copy\<close> and the loop
  over the headers; deleting a key lowers \<^verbatim>\<open>len\<close> by at most one; and the loop only
  removes entries, never those of a voter that is not old, never takes the voters below the
  seat count, and, when it was not stopped, leaves no old voter it visited.
\<close>

lemma keyed_map_of: "keyed vs \<Longrightarrow> map_of vs k = Some vote \<Longrightarrow> Voter vote = k"
  by (auto simp: keyed_def list_all_iff dest: map_of_SomeD)

lemma keyed_delete: "keyed vs \<Longrightarrow> keyed (AList.delete k vs)"
  by (induction vs) (auto simp: keyed_def)

lemma keyed_update: "keyed vs \<Longrightarrow> Voter vote = k \<Longrightarrow> keyed (AList.update k vote vs)"
  by (induction vs) (auto simp: keyed_def)

lemma keyed_copy_Votes: "keyed vs \<Longrightarrow> keyed (snd (copy_Votes h vs))"
proof (induction vs arbitrary: h)
  case Nil
  then show ?case by (simp add: keyed_def)
next
  case (Cons a vs)
  obtain voter vote where a: "a = (voter, vote)" by (cases a)
  obtain p h1 where n: "new_Int h (rd h (Stake vote)) = (p, h1)" by (cases "new_Int h (rd h (Stake vote))")
  obtain h2 vs' where c: "copy_Votes h1 vs = (h2, vs')" by (cases "copy_Votes h1 vs")
  from Cons.prems a have "keyed vs" "Voter vote = voter" by (simp_all add: keyed_def)
  with Cons.IH [of h1] c have "keyed vs'" by simp
  with \<open>Voter vote = voter\<close> a n c show ?case by (simp add: keyed_def)
qed

lemma copy_keyed: "keyed (Votes s) \<Longrightarrow> keyed (Votes (snd (copy h s)))"
  using keyed_copy_Votes [of "Votes s" h]
  by (cases "copy_Votes h (Votes s)") (simp add: copy_def)

lemma applyVote_keyed:
  "applyVote n (h, snap) v = (h', Inr snap') \<Longrightarrow> keyed (Votes snap) \<Longrightarrow> keyed (Votes snap')"
  by (auto simp: applyVote_def Let_def keyed_update split: option.splits sum.splits prod.splits)

lemma applyVotes_keyed:
  "applyVotes n (h, snap) vs = (h', Inr snap') \<Longrightarrow> keyed (Votes snap) \<Longrightarrow> keyed (Votes snap')"
proof (induction vs arbitrary: h snap)
  case Nil
  then show ?case by simp
next
  case (Cons v vs)
  then show ?case
    by (auto split: prod.splits sum.splits dest: applyVote_keyed)
qed

lemma modifyVote_keyed:
  "modifyVote (h, snap) v = (h', Inr snap') \<Longrightarrow> keyed (Votes snap) \<Longrightarrow> keyed (Votes snap')"
  by (auto simp: modifyVote_def Let_def keyed_update split: option.splits)

lemma modifyVotes_keyed:
  "modifyVotes (h, snap) vs = (h', Inr snap') \<Longrightarrow> keyed (Votes snap) \<Longrightarrow> keyed (Votes snap')"
proof (induction vs arbitrary: h snap)
  case Nil
  then show ?case by simp
next
  case (Cons v vs)
  then show ?case
    by (auto split: prod.splits sum.splits dest: modifyVote_keyed)
qed

lemma applyHeader_keyed:
  assumes "applyHeader E (h, snap) header = (h', Inr snap')" "keyed (Votes snap)"
  shows "keyed (Votes snap')"
  using assms
  by (auto simp: applyHeader_def Let_def split: sum.splits if_splits prod.splits
      dest!: applyVotes_keyed modifyVotes_keyed)

lemma applyHeaders_keyed:
  "applyHeaders E (h, snap) hs = (h', Inr snap') \<Longrightarrow> keyed (Votes snap) \<Longrightarrow> keyed (Votes snap')"
proof (induction hs arbitrary: h snap)
  case Nil
  then show ?case by simp
next
  case (Cons a hs)
  then show ?case
    by (auto split: prod.splits sum.splits dest: applyHeader_keyed)
qed


lemma len_card: "len m = card (fst ` set m)"
  by (simp add: len_def length_remdups_card_conv)

lemma keys_delete: "fst ` set (AList.delete k m) = fst ` set m - {k}"
  by (induction m) auto

lemma len_delete_le: "len (AList.delete k m) \<le> len m"
  by (simp add: len_card keys_delete card_Diff1_le)

lemma len_delete_ge: "len m \<le> Suc (len (AList.delete k m))"
proof -
  have "card (fst ` set m) \<le> Suc (card (fst ` set m - {k}))"
    by (cases "k \<in> fst ` set m") (simp_all add: card_Suc_Diff1 del: card_Diff_insert)
  then show ?thesis by (simp add: len_card keys_delete)
qed

lemma expireVote_cases:
  assumes "expireVote (h, snap) v = (h', Inr snap')"
  shows "(map_of (Votes snap) v = None \<and> h' = h \<and> snap' = snap)
    \<or> (\<exists>vote. map_of (Votes snap) v = Some vote
          \<and> Votes snap' = AList.delete (Voter vote) (Votes snap)
          \<and> Voters snap' = AList.delete (Voter vote) (Voters snap)
          \<and> (Tally snap' = Tally snap
               \<or> Tally snap' = AList.delete (Candidate vote) (Tally snap))
          \<and> Number snap' = Number snap)"
  using assms by (auto simp: expireVote_def Let_def split: option.splits if_splits)

text \<open>Entries only leave the maps.\<close>

lemma expireVotes_mono:
  "expireVotes cfg (h, snap) order = (h', Inr snap') \<Longrightarrow>
     Number snap' = Number snap
     \<and> (\<forall>v n. map_of (Voters snap') v = Some n \<longrightarrow> map_of (Voters snap) v = Some n)
     \<and> (\<forall>v x. map_of (Votes snap') v = Some x \<longrightarrow> map_of (Votes snap) v = Some x)"
proof (induction order arbitrary: h snap)
  case Nil
  then show ?case by simp
next
  case (Cons w rest)
  show ?case
  proof (cases "map_of (Voters snap) w")
    case None
    with Cons show ?thesis by simp
  next
    case (Some m)
    show ?thesis
    proof (cases "int (len (Voters snap)) \<le> sint (MaxSignerCount cfg)
             \<or> int (len (Tally snap)) \<le> sint (MaxSignerCount cfg)")
      case True
      with Some Cons.prems show ?thesis by simp
    next
      case gate: False
      show ?thesis
      proof (cases "Epoch cfg < Number snap - Uint64 m")
        case False
        with Some gate Cons show ?thesis by simp
      next
        case True
        with Some gate Cons.prems obtain h1 snap_m where
          e: "expireVote (h, snap) w = (h1, Inr snap_m)"
          and r: "expireVotes cfg (h1, snap_m) rest = (h', Inr snap')"
          by (auto split: prod.splits sum.splits)
        from Cons.IH [OF r] have ih: "Number snap' = Number snap_m"
          "\<And>v n. map_of (Voters snap') v = Some n \<Longrightarrow> map_of (Voters snap_m) v = Some n"
          "\<And>v x. map_of (Votes snap') v = Some x \<Longrightarrow> map_of (Votes snap_m) v = Some x"
          by blast+
        from expireVote_cases [OF e] have st: "Number snap_m = Number snap"
          "\<And>v n. map_of (Voters snap_m) v = Some n \<Longrightarrow> map_of (Voters snap) v = Some n"
          "\<And>v x. map_of (Votes snap_m) v = Some x \<Longrightarrow> map_of (Votes snap) v = Some x"
          by (auto simp: delete_conv' split: if_splits)
        from ih st show ?thesis by metis
      qed
    qed
  qed
qed


lemma expireVotes_Cons_cases:
  assumes "expireVotes cfg (h, snap) (w # rest) = (h', Inr snap')"
  obtains
    (skip) "map_of (Voters snap) w = None"
      "expireVotes cfg (h, snap) rest = (h', Inr snap')"
  | (stop) m where "map_of (Voters snap) w = Some m"
      "int (len (Voters snap)) \<le> sint (MaxSignerCount cfg)
         \<or> int (len (Tally snap)) \<le> sint (MaxSignerCount cfg)"
      "h' = h" "snap' = snap"
  | (young) m where "map_of (Voters snap) w = Some m"
      "\<not> (int (len (Voters snap)) \<le> sint (MaxSignerCount cfg)
         \<or> int (len (Tally snap)) \<le> sint (MaxSignerCount cfg))"
      "\<not> Epoch cfg < Number snap - Uint64 m"
      "expireVotes cfg (h, snap) rest = (h', Inr snap')"
  | (old) m h1 snap_m where "map_of (Voters snap) w = Some m"
      "\<not> (int (len (Voters snap)) \<le> sint (MaxSignerCount cfg)
         \<or> int (len (Tally snap)) \<le> sint (MaxSignerCount cfg))"
      "Epoch cfg < Number snap - Uint64 m"
      "expireVote (h, snap) w = (h1, Inr snap_m)"
      "expireVotes cfg (h1, snap_m) rest = (h', Inr snap')"
  using assms by (auto split: option.splits if_splits prod.splits sum.splits)

text \<open>A voter that is not old keeps its vote and its entry.\<close>

lemma expireVotes_young:
  "expireVotes cfg (h, snap) order = (h', Inr snap') \<Longrightarrow> keyed (Votes snap) \<Longrightarrow>
   map_of (Voters snap) v = Some n \<Longrightarrow> \<not> Epoch cfg < Number snap - Uint64 n \<Longrightarrow>
     map_of (Voters snap') v = Some n \<and> map_of (Votes snap') v = map_of (Votes snap) v"
proof (induction order arbitrary: h snap)
  case Nil
  then show ?case by simp
next
  case (Cons w rest)
  from Cons.prems(1) show ?case
  proof (cases rule: expireVotes_Cons_cases)
    case skip
    with Cons show ?thesis by blast
  next
    case (stop m)
    with Cons.prems show ?thesis by simp
  next
    case (young m)
    with Cons show ?thesis by blast
  next
    case (old m h1 snap_m)
    from old(1,3) Cons.prems(3,4) have ne: "w \<noteq> v" by auto
    from expireVote_cases [OF old(4)] Cons.prems(2) ne
    have st: "keyed (Votes snap_m)" "map_of (Voters snap_m) v = map_of (Voters snap) v"
      "map_of (Votes snap_m) v = map_of (Votes snap) v" "Number snap_m = Number snap"
      by (auto simp: delete_conv' keyed_delete dest: keyed_map_of)
    with Cons.IH [OF old(5), of ] Cons.prems(3,4) show ?thesis by simp
  qed
qed

text \<open>The voters never fall below the seat count once they were at or above it.\<close>

lemma expireVotes_floor:
  "expireVotes cfg (h, snap) order = (h', Inr snap') \<Longrightarrow>
   sint (MaxSignerCount cfg) \<le> int (len (Voters snap)) \<Longrightarrow>
     sint (MaxSignerCount cfg) \<le> int (len (Voters snap'))"
proof (induction order arbitrary: h snap)
  case Nil
  then show ?case by simp
next
  case (Cons w rest)
  from Cons.prems(1) show ?case
  proof (cases rule: expireVotes_Cons_cases)
    case skip
    with Cons show ?thesis by blast
  next
    case (stop m)
    with Cons.prems show ?thesis by simp
  next
    case (young m)
    with Cons show ?thesis by blast
  next
    case (old m h1 snap_m)
    from expireVote_cases [OF old(4)]
    have "len (Voters snap) \<le> Suc (len (Voters snap_m))"
      by (auto simp: len_delete_ge)
    with old(2) have "sint (MaxSignerCount cfg) \<le> int (len (Voters snap_m))" by linarith
    with Cons.IH [OF old(5)] show ?thesis by simp
  qed
qed

text \<open>
  If both counts still exceed the seat count at the end, the loop never stopped early,
  and every old voter it was to visit has lost its vote.
\<close>

lemma expireVotes_complete:
  "expireVotes cfg (h, snap) order = (h', Inr snap') \<Longrightarrow> keyed (Votes snap) \<Longrightarrow>
   \<not> int (len (Voters snap')) \<le> sint (MaxSignerCount cfg) \<Longrightarrow>
   \<not> int (len (Tally snap')) \<le> sint (MaxSignerCount cfg) \<Longrightarrow>
   v \<in> set order \<Longrightarrow> map_of (Voters snap) v = Some n \<Longrightarrow>
   Epoch cfg < Number snap - Uint64 n \<Longrightarrow> map_of (Votes snap) v \<noteq> None \<Longrightarrow>
     map_of (Voters snap') v = None \<and> map_of (Votes snap') v = None"
proof (induction order arbitrary: h snap)
  case Nil
  then show ?case by simp
next
  case (Cons w rest)
  from Cons.prems(1) show ?case
  proof (cases rule: expireVotes_Cons_cases)
    case skip
    with Cons.prems(5,6) have "v \<in> set rest" by auto
    with Cons.IH [OF skip(2)] Cons.prems show ?thesis by blast
  next
    case (stop m)
    with Cons.prems(3,4) show ?thesis by simp
  next
    case (young m)
    with Cons.prems(5,6,7) have "v \<in> set rest" by auto
    with Cons.IH [OF young(4)] Cons.prems show ?thesis by blast
  next
    case (old m h1 snap_m)
    note mono = expireVotes_mono [OF old(5)]
    show ?thesis
    proof (cases "w = v")
      case True
      from Cons.prems(8) obtain vote where vote: "map_of (Votes snap) v = Some vote" by auto
      with Cons.prems(2) have "Voter vote = v" by (rule keyed_map_of)
      with expireVote_cases [OF old(4)] vote True
      have "map_of (Voters snap_m) v = None" "map_of (Votes snap_m) v = None"
        by (auto simp: delete_conv')
      with mono show ?thesis by (metis option.exhaust)
    next
      case False
      with Cons.prems(5) have in_rest: "v \<in> set rest" by simp
      from expireVote_cases [OF old(4)] Cons.prems(2) False
      have st: "keyed (Votes snap_m)" "map_of (Voters snap_m) v = map_of (Voters snap) v"
        "map_of (Votes snap_m) v = map_of (Votes snap) v" "Number snap_m = Number snap"
        by (auto simp: delete_conv' keyed_delete dest: keyed_map_of)
      with Cons.IH [OF old(5) _ Cons.prems(3,4) in_rest] Cons.prems(6,7,8)
      show ?thesis by simp
    qed
  qed
qed


lemma len_sweep_one: "len (sweep_one h a tally) \<le> len tally"
  by (simp add: sweep_one_def len_delete_le split: option.splits)

lemma len_fold_sweep: "len (fold (sweep_one h) ks tally) \<le> len tally"
proof (induction ks arbitrary: tally)
  case Nil
  then show ?case by simp
next
  case (Cons a ks)
  have "len (fold (sweep_one h) ks (sweep_one h a tally)) \<le> len (sweep_one h a tally)"
    by (rule Cons.IH)
  also have "\<dots> \<le> len tally" by (rule len_sweep_one)
  finally show ?case by simp
qed

lemma len_sweepTally: "len (sweepTally h tally) \<le> len tally"
  by (simp add: sweepTally_def len_fold_sweep)

lemma apply_headers_tail:
  assumes "snd (apply_headers E h s headers) = Inr s'" and "headers \<noteq> []"
    and "snd (applyHeaders E (copy h s) headers) = Inr mid"
  obtains h1 h' snap3 where
    "expireVotes (config s)
       (h1, mid\<lparr>Number := Number mid + of_nat (length headers),
                  Hash := Header_Hash E (last headers)\<rparr>)
       (rangeOrder E (keys_of (Voters mid))) = (h', Inr snap3)"
    "s' = snap3\<lparr>Tally := sweepTally h' (Tally snap3)\<rparr>"
    "applyHeaders E (copy h s) headers = (h1, Inr mid)"
    "apply_headers E h s headers = (h', Inr s')"
  using assms
  by (auto simp: apply_headers_def Let_def split: if_splits prod.splits sum.splits)

lemma in_keys_of: "map_of m k = Some v \<Longrightarrow> k \<in> set (keys_of m)"
  by (auto simp: keys_of_def dest: map_of_SomeD intro: rev_image_eqI)

text \<open>
  The tally through the expiry. Deleting a vote takes its stake out of its candidate's
  sum and leaves the other sums; on a ledger without shared cells one expiry, the whole
  loop and the last sweep keep every tally cell equal to its sum.
\<close>

lemma remdups_removeAll_commute: "remdups (removeAll k xs) = removeAll k (remdups xs)"
  by (induction xs) auto

lemma keys_of_delete: "keys_of (AList.delete k m) = removeAll k (keys_of m)"
  by (simp add: keys_of_def delete_keys remdups_removeAll_commute)

lemma sum_list_removeAll:
  fixes f :: "'a \<Rightarrow> int"
  assumes "distinct xs" "x \<in> set xs"
  shows "sum_list (map f (removeAll x xs)) = sum_list (map f xs) - f x"
proof -
  from assms(1) have "removeAll x xs = remove1 x xs" by (simp add: distinct_remove1_removeAll)
  with sum_list_map_remove1 [OF assms(2), of f] show ?thesis by simp
qed

lemma stake_for_delete:
  assumes v: "map_of vs v = Some vote"
    and same: "\<And>k x. map_of vs k = Some x \<Longrightarrow> rd h' (Stake x) = rd h (Stake x)"
  shows "stake_for h' (AList.delete v vs) c =
           stake_for h vs c - (if Candidate vote = c then rd h (Stake vote) else 0)"
proof -
  let ?f = "\<lambda>hh m k. case map_of m k of
                           None \<Rightarrow> 0
                         | Some vote \<Rightarrow> if Candidate vote = c then rd hh (Stake vote) else (0::int)"
  have in_keys: "v \<in> set (keys_of vs)" using v by (rule in_keys_of)
  have dist: "distinct (keys_of vs)" by (simp add: keys_of_def)
  have pt: "?f h' (AList.delete v vs) k = ?f h vs k"
    if "k \<in> set (removeAll v (keys_of vs))" for k
  proof -
    from that have "map_of (AList.delete v vs) k = map_of vs k" by (simp add: delete_conv')
    then show ?thesis by (cases "map_of vs k") (simp_all add: same)
  qed
  have meq: "map (?f h' (AList.delete v vs)) (removeAll v (keys_of vs))
      = map (?f h vs) (removeAll v (keys_of vs))"
    by (rule map_cong [OF refl]) (rule pt)
  have "stake_for h' (AList.delete v vs) c
      = sum_list (map (?f h' (AList.delete v vs)) (removeAll v (keys_of vs)))"
    unfolding stake_for_def keys_of_delete by (rule refl)
  also have "\<dots> = sum_list (map (?f h vs) (removeAll v (keys_of vs)))"
    by (rule arg_cong [OF meq])
  also have "\<dots> = sum_list (map (?f h vs) (keys_of vs)) - ?f h vs v"
    using dist in_keys by (rule sum_list_removeAll)
  finally show ?thesis using v by (simp add: stake_for_def)
qed


lemma distinct_snd_unique:
  "distinct (map snd m) \<Longrightarrow> (a, b) \<in> set m \<Longrightarrow> (a', b) \<in> set m \<Longrightarrow> a = a'"
  by (induction m) (auto intro: rev_image_eqI)

lemma distinct_fst_unique:
  "distinct (map fst m) \<Longrightarrow> (a, b) \<in> set m \<Longrightarrow> (a, b') \<in> set m \<Longrightarrow> b = b'"
  by (induction m) (auto intro: rev_image_eqI)

lemma set_delete_subset: "set (AList.delete k m) \<subseteq> set m"
  by (induction m) auto

lemma distinct_snd_delete: "distinct (map snd m) \<Longrightarrow> distinct (map snd (AList.delete k m))"
  by (induction m) (auto dest: subsetD [OF set_delete_subset])

lemma unshared_shrink:
  assumes u: "unshared snap"
    and t: "Tally snap' = Tally snap \<or> Tally snap' = AList.delete c (Tally snap)"
    and v: "Votes snap' = AList.delete k (Votes snap)"
  shows "unshared snap'"
proof -
  from u have d1: "distinct (map fst (Tally snap))" and d2: "distinct (map snd (Tally snap))"
    and d3: "\<And>k x. (k, x) \<in> set (Votes snap) \<Longrightarrow> Stake x \<notin> snd ` set (Tally snap)"
    by (auto simp: unshared_def list_all_iff)
  from t have sub: "set (Tally snap') \<subseteq> set (Tally snap)"
    using set_delete_subset [of c "Tally snap"] by auto
  from t d1 have e1: "distinct (map fst (Tally snap'))" by (auto simp: distinct_delete)
  from t d2 have e2: "distinct (map snd (Tally snap'))" by (auto simp: distinct_snd_delete)
  have e3: "Stake x \<notin> snd ` set (Tally snap')" if "(k', x) \<in> set (Votes snap')" for k' x
  proof -
    from that v have "(k', x) \<in> set (Votes snap)"
      using set_delete_subset [of k "Votes snap"] by auto
    then have "Stake x \<notin> snd ` set (Tally snap)" by (rule d3)
    with sub show ?thesis by auto
  qed
  from e1 e2 e3 show ?thesis by (auto simp: unshared_def list_all_iff)
qed

lemma expireVote_matches:
  assumes e: "expireVote (h, snap) v = (h', Inr snap')"
    and u: "unshared snap" and tm: "tally_matches h snap" and k: "keyed (Votes snap)"
  shows "unshared snap' \<and> tally_matches h' snap'"
proof (cases "map_of (Votes snap) v")
  case None
  with e u tm show ?thesis by (simp add: expireVote_def)
next
  case (Some vote)
  let ?c = "Candidate vote"
  from k Some have own: "Voter vote = v" by (rule keyed_map_of)
  from e Some obtain t where t: "map_of (Tally snap) ?c = Some t"
    by (cases "map_of (Tally snap) ?c") (simp_all add: expireVote_def)
  let ?h' = "Int_Sub h t t (Stake vote)"
  from e Some t own have h': "h' = ?h'"
    and tl: "Tally snap' = (if rd ?h' t = 0 then AList.delete ?c (Tally snap) else Tally snap)"
    and vs: "Votes snap' = AList.delete v (Votes snap)"
    by (auto simp: expireVote_def Let_def)
  from tl have tl': "Tally snap' = Tally snap \<or> Tally snap' = AList.delete ?c (Tally snap)"
    by simp
  from u tl' vs have u': "unshared snap'" by (rule unshared_shrink)
  from u have d1: "distinct (map fst (Tally snap))" and d2: "distinct (map snd (Tally snap))"
    and d3: "\<And>k x. (k, x) \<in> set (Votes snap) \<Longrightarrow> Stake x \<notin> snd ` set (Tally snap)"
    by (auto simp: unshared_def list_all_iff)
  from t have tin: "(?c, t) \<in> set (Tally snap)" by (rule map_of_SomeD)
  have same: "rd h' (Stake x) = rd h (Stake x)" if "map_of (Votes snap) k' = Some x" for k' x
  proof -
    from that have "(k', x) \<in> set (Votes snap)" by (rule map_of_SomeD)
    then have "Stake x \<notin> snd ` set (Tally snap)" by (rule d3)
    with tin have "Stake x \<noteq> t" by (auto intro: rev_image_eqI)
    then show ?thesis by (simp add: h' Int_Sub_def wr_def rd_def)
  qed
  have sf: "stake_for h' (Votes snap') c' =
      stake_for h (Votes snap) c' - (if ?c = c' then rd h (Stake vote) else 0)" for c'
    unfolding vs using Some same by (rule stake_for_delete)
  from tm have m: "rd h t' = stake_for h (Votes snap) c'"
    if "(c', t') \<in> set (Tally snap)" for c' t'
    using that by (auto simp: tally_matches_def list_all_iff)
  have r: "rd h' t = rd h t - rd h (Stake vote)"
    by (simp add: h' Int_Sub_def wr_def rd_def)
  have r': "rd h' p = rd h p" if "p \<noteq> t" for p
    using that by (simp add: h' Int_Sub_def wr_def rd_def)
  have "rd h' t' = stake_for h' (Votes snap') c'" if mem: "(c', t') \<in> set (Tally snap')" for c' t'
  proof -
    from mem tl' have mem0: "(c', t') \<in> set (Tally snap)"
      using set_delete_subset [of ?c "Tally snap"] by auto
    show ?thesis
    proof (cases "t' = t")
      case True
      with mem0 tin d2 have "c' = ?c" by (auto dest: distinct_snd_unique)
      with True m [OF tin] show ?thesis
        by (simp add: sf r)
    next
      case False
      with mem0 tin d1 have "c' \<noteq> ?c" by (auto dest: distinct_fst_unique)
      with False m [OF mem0] show ?thesis
        by (simp add: sf r')
    qed
  qed
  then have "tally_matches h' snap'" by (auto simp: tally_matches_def list_all_iff)
  with u' show ?thesis by simp
qed


lemma expireVote_keyed:
  "expireVote (h, snap) v = (h', Inr snap') \<Longrightarrow> keyed (Votes snap) \<Longrightarrow> keyed (Votes snap')"
  by (auto dest!: expireVote_cases simp: keyed_delete)

text \<open>The whole loop keeps the tally equal to the stakes of the votes that remain.\<close>

lemma expireVotes_matches:
  "expireVotes cfg (h, snap) order = (h', Inr snap') \<Longrightarrow> unshared snap \<Longrightarrow>
   tally_matches h snap \<Longrightarrow> keyed (Votes snap) \<Longrightarrow>
     unshared snap' \<and> tally_matches h' snap'"
proof (induction order arbitrary: h snap)
  case Nil
  then show ?case by simp
next
  case (Cons w rest)
  from Cons.prems(1) show ?case
  proof (cases rule: expireVotes_Cons_cases)
    case skip
    with Cons show ?thesis by blast
  next
    case (stop m)
    with Cons.prems show ?thesis by simp
  next
    case (young m)
    with Cons show ?thesis by blast
  next
    case (old m h1 snap_m)
    from expireVote_matches [OF old(4) Cons.prems(2,3,4)]
    have "unshared snap_m" "tally_matches h1 snap_m" by simp_all
    moreover from old(4) Cons.prems(4) have "keyed (Votes snap_m)" by (rule expireVote_keyed)
    ultimately show ?thesis using Cons.IH [OF old(5)] by simp
  qed
qed

lemma set_sweep_one: "set (sweep_one h a tally) \<subseteq> set tally"
  using set_delete_subset [of a tally] by (auto simp: sweep_one_def split: option.splits)

lemma set_fold_sweep: "set (fold (sweep_one h) ks tally) \<subseteq> set tally"
proof (induction ks arbitrary: tally)
  case Nil
  then show ?case by simp
next
  case (Cons a ks)
  have "set (fold (sweep_one h) ks (sweep_one h a tally)) \<subseteq> set (sweep_one h a tally)"
    by (rule Cons.IH)
  also have "\<dots> \<subseteq> set tally" by (rule set_sweep_one)
  finally show ?case by simp
qed

lemma sweep_matches:
  "tally_matches h snap \<Longrightarrow> tally_matches h (snap\<lparr>Tally := sweepTally h (Tally snap)\<rparr>)"
  using set_fold_sweep [of h "keys_of (Tally snap)" "Tally snap"]
  by (auto simp: tally_matches_def list_all_iff sweepTally_def)

lemma apply_keeps_tally:
  assumes ok: "snd (apply_headers E h s headers) = Inr s'"
    and ne: "headers \<noteq> []"
    and loop: "snd (applyHeaders E (copy h s) headers) = Inr mid"
    and keyed: "keyed (Votes s)"
    and u: "unshared mid"
    and tm: "tally_matches (fst (applyHeaders E (copy h s) headers)) mid"
  shows "tally_matches (fst (apply_headers E h s headers)) s'"
proof -
  let ?snap2 = "mid\<lparr>Number := Number mid + of_nat (length headers),
                     Hash := Header_Hash E (last headers)\<rparr>"
  from ok ne loop obtain h1 h' snap3 where
    ex: "expireVotes (config s) (h1, ?snap2) (rangeOrder E (keys_of (Voters mid)))
           = (h', Inr snap3)"
    and s': "s' = snap3\<lparr>Tally := sweepTally h' (Tally snap3)\<rparr>"
    and hl: "applyHeaders E (copy h s) headers = (h1, Inr mid)"
    and ap: "apply_headers E h s headers = (h', Inr s')"
    by (rule apply_headers_tail)
  obtain h0 snap0 where cp: "copy h s = (h0, snap0)" by (cases "copy h s")
  from copy_keyed [OF keyed, of h] cp have "keyed (Votes snap0)" by simp
  with hl cp have "keyed (Votes mid)" by (auto dest: applyHeaders_keyed)
  then have k2: "keyed (Votes ?snap2)" by simp
  from u have u2: "unshared ?snap2" by (simp add: unshared_def)
  from tm hl have tm2: "tally_matches h1 ?snap2" by (simp add: tally_matches_def)
  from expireVotes_matches [OF ex u2 tm2 k2] have "tally_matches h' snap3" by simp
  then have "tally_matches h' (snap3\<lparr>Tally := sweepTally h' (Tally snap3)\<rparr>)"
    by (rule sweep_matches)
  with s' ap show ?thesis by simp
qed

text \<open>
  The selection of the seats. The items collected depend on the order of the visit only
  up to a permutation; sorted lists with the same members carry the same weights at the
  same ranks; and when the weight falls strictly at the cut, the items before the cut are
  those at least as heavy as the last of them.
\<close>

lemma mset_collect:
  "mset (collect h s xs) =
     image_mset (\<lambda>a. tallyItem h s a (the (map_of (Tally s) a)))
       (filter_mset (\<lambda>a. map_of (Tally s) a \<noteq> None) (mset xs))"
  by (induction xs) (auto split: option.splits)

lemma collect_cong: "mset xs = mset ys \<Longrightarrow> mset (collect h s xs) = mset (collect h s ys)"
  by (simp add: mset_collect)

lemma sort_key_keys:
  fixes g :: "'a \<Rightarrow> int"
  shows "map g (sort_key g xs) = sort (map g xs)"
proof -
  have "mset (map g (sort_key g xs)) = mset (map g xs)" by simp
  moreover have "sorted (map g (sort_key g xs))" by simp
  ultimately show ?thesis by (rule properties_for_sort [symmetric])
qed

lemma sort_mset_cong:
  fixes xs ys :: "int list"
  assumes "mset xs = mset ys"
  shows "sort xs = sort ys"
proof -
  have "mset (sort ys) = mset xs" using assms by simp
  moreover have "sorted (sort ys)" by simp
  ultimately show ?thesis by (rule properties_for_sort)
qed

lemma sorted_keys_cong:
  fixes g :: "'a \<Rightarrow> int"
  assumes "mset xs = mset ys"
  shows "map g (sort_key g xs) = map g (sort_key g ys)"
proof -
  from assms have "mset (map g xs) = mset (map g ys)" by simp
  then have "sort (map g xs) = sort (map g ys)" by (rule sort_mset_cong)
  then show ?thesis by (simp only: sort_key_keys)
qed

lemma take_above_cut:
  fixes g :: "'a \<Rightarrow> int"
  assumes srt: "sorted (map g xs)" and k0: "0 < k" and kn: "k < length xs"
    and cut: "g (xs ! (k - 1)) < g (xs ! k)"
  shows "mset (take k xs) = filter_mset (\<lambda>x. g x \<le> g (xs ! (k - 1))) (mset xs)"
proof -
  let ?c = "g (xs ! (k - 1))"
  have lo: "g x \<le> ?c" if "x \<in> set (take k xs)" for x
  proof -
    from that obtain i where i: "i < k" "x = xs ! i"
      using kn by (auto simp: in_set_conv_nth)
    with k0 kn have "i \<le> k - 1" "k - 1 < length (map g xs)" by simp_all
    with srt have "map g xs ! i \<le> map g xs ! (k - 1)" by (rule sorted_nth_mono)
    with i kn show ?thesis by simp
  qed
  have hi: "\<not> g x \<le> ?c" if "x \<in> set (drop k xs)" for x
  proof -
    from that obtain j where j: "j < length xs - k" "x = xs ! (k + j)"
      by (auto simp: in_set_conv_nth)
    then have "k \<le> k + j" "k + j < length (map g xs)" by simp_all
    with srt have "map g xs ! k \<le> map g xs ! (k + j)" by (rule sorted_nth_mono)
    with j kn cut show ?thesis by simp
  qed
  have "filter (\<lambda>x. g x \<le> ?c) xs =
      filter (\<lambda>x. g x \<le> ?c) (take k xs) @ filter (\<lambda>x. g x \<le> ?c) (drop k xs)"
    by (simp only: filter_append [symmetric] append_take_drop_id)
  also have "filter (\<lambda>x. g x \<le> ?c) (take k xs) = take k xs"
    using lo by (simp add: filter_id_conv)
  also have "filter (\<lambda>x. g x \<le> ?c) (drop k xs) = []"
    using hi by (simp add: filter_empty_conv)
  finally have "filter (\<lambda>x. g x \<le> ?c) xs = take k xs" by simp
  then have "mset (take k xs) = mset (filter (\<lambda>x. g x \<le> ?c) xs)" by simp
  then show ?thesis by simp
qed

lemma take_members_fixed:
  fixes g :: "'a \<Rightarrow> int"
  assumes m: "mset xs = mset ys"
    and sx: "sorted (map g xs)" and sy: "sorted (map g ys)"
    and cut: "k = 0 \<or> length xs \<le> k \<or> g (xs ! (k - 1)) < g (xs ! k)"
  shows "mset (take k xs) = mset (take k ys)"
proof -
  from m have len: "length xs = length ys" by (rule mset_eq_length)
  have keys: "map g xs = map g ys"
  proof -
    from m have "mset (map g xs) = mset (map g ys)" by simp
    then have "sort (map g xs) = sort (map g ys)" by (rule sort_mset_cong)
    with sx sy show ?thesis by (simp add: sorted_sort_id)
  qed
  consider (none) "k = 0" | (all) "length xs \<le> k"
    | (some) "0 < k" "k < length xs" "g (xs ! (k - 1)) < g (xs ! k)"
    using cut by fastforce
  then show ?thesis
  proof cases
    case none
    then show ?thesis by simp
  next
    case all
    with len m show ?thesis by simp
  next
    case some
    from some(1,2) have a: "g (xs ! (k - 1)) = g (ys ! (k - 1))"
      using arg_cong [OF keys, of "\<lambda>l. l ! (k - 1)"] len by simp
    from some(2) have b: "g (xs ! k) = g (ys ! k)"
      using arg_cong [OF keys, of "\<lambda>l. l ! k"] len by simp
    from some have "mset (take k xs) = filter_mset (\<lambda>x. g x \<le> g (xs ! (k - 1))) (mset xs)"
      by (intro take_above_cut sx)
    moreover from some a b len
    have "mset (take k ys) = filter_mset (\<lambda>x. g x \<le> g (ys ! (k - 1))) (mset ys)"
      by (intro take_above_cut sy) simp_all
    ultimately show ?thesis using a m by simp
  qed
qed


section \<open>Properties of the specification\<close>

text \<open>
  C1. Specified: \<^verbatim>\<open>apply\<close> never changes its input snapshot. In the code, \<^verbatim>\<open>copy\<close>
  hands the working copy the tally pointers of the input, and \<^verbatim>\<open>apply\<close> adds to the
  cell behind such a pointer. Applying block 1 (voter 2 backs candidate 7 with 3) to
  \<open>snap1\<close> succeeds and leaves 8 in the cell that the input's tally entry for candidate 7
  names, where 5 stood before.
\<close>

theorem C1_apply_writes_input_tally:
  "map_of (Tally snap1) 7 = Some 0 \<and> rd heap1 0 = 5 \<and>
   (case apply_headers env0 heap1 snap1 [header1] of
      (h', Inr s') \<Rightarrow> rd h' 0 = 8
    | (h', Inl e) \<Rightarrow> False)"
  by (simp add: apply_defs heap_defs input_defs)

text \<open>
  C2. Specified: a payload that does not decode makes \<^verbatim>\<open>apply\<close> fail. In the code the
  decoder's error is dropped: block 1 with an undecodable payload is applied with the
  record as the decoder left it, here zero-valued, and a snapshot at block 1 comes back.
\<close>

theorem C2_decode_error_dropped:
  "fst (DecodeBytes env0 (Extra header_undecodable)) = Some errDecode \<and>
   (case apply_headers env0 heap1 snap1 [header_undecodable] of
      (h', Inr s') \<Rightarrow>
        Number s' = 1 \<and> HeaderTime s' = 100 \<and> LoopStartTime s' = 0 \<and> Signers s' = []
    | (h', Inl e) \<Rightarrow> False)"
  by (simp add: apply_defs heap_defs input_defs)

text \<open>
  C3. Specified: two calls of \<^verbatim>\<open>getSignerQueue\<close> on equal snapshots return the same
  sequence. In the code the order of the sequence comes from the process-wide generator:
  the same snapshot gives \<open>[1, 2]\<close> under one run of draws and \<open>[2, 1]\<close> under another.
  And with three candidates of equal weight and one seat, the seat goes to candidate 1 or
  to candidate 3 according to the order in which the tally is visited. What holds: when
  the weight falls strictly between the last seat and the first candidate left out (or
  all candidates are seated, or there is no seat), two calls return sequences with the same
  members, or the same failure, whatever the orders of visit and the draws.
\<close>

theorem C3_queue_members_fixed:
  assumes v1: "mset (visit_a (keys_of (Tally s))) = mset (keys_of (Tally s))"
    and v2: "mset (visit_b (keys_of (Tally s))) = mset (keys_of (Tally s))"
    and cut: "sint (MaxSignerCount (config s)) \<le> 0
      \<or> int (length (ranked_weights h s)) \<le> sint (MaxSignerCount (config s))
      \<or> ranked_weights h s ! nat (sint (MaxSignerCount (config s)))
          < ranked_weights h s ! (nat (sint (MaxSignerCount (config s))) - 1)"
  shows "map_sum (\<lambda>e. e) mset (getSignerQueue visit_a draws_a h s) =
         map_sum (\<lambda>e. e) mset (getSignerQueue visit_b draws_b h s)"
proof -
  let ?g = "\<lambda>item. - stake item"
  let ?ks = "keys_of (Tally s)"
  let ?t0 = "sort_Sort (collect h s ?ks)"
  let ?t1 = "sort_Sort (collect h s (visit_a ?ks))"
  let ?t2 = "sort_Sort (collect h s (visit_b ?ks))"
  let ?M = "sint (MaxSignerCount (config s))"
  let ?q = "if ?M > int (length ?t1) then int (length ?t1) else ?M"
  have m1: "mset ?t1 = mset ?t0" using collect_cong [OF v1] by (simp add: sort_Sort_def)
  have m2: "mset ?t2 = mset ?t0" using collect_cong [OF v2] by (simp add: sort_Sort_def)
  from m1 m2 have m: "mset ?t1 = mset ?t2" by simp
  then have len: "length ?t1 = length ?t2" by (rule mset_eq_length)
  from m1 have len0: "length ?t1 = length ?t0" by (rule mset_eq_length)
  have s1: "sorted (map ?g ?t1)" by (simp add: sort_Sort_def)
  have s2: "sorted (map ?g ?t2)" by (simp add: sort_Sort_def)
  have k1: "map ?g ?t1 = map ?g ?t0"
    using sorted_keys_cong [OF collect_cong [OF v1], of ?g] by (simp add: sort_Sort_def)
  have w: "ranked_weights h s ! i = - (?g (?t1 ! i))" if "i < length ?t1" for i
  proof -
    from that len0 have "?g (?t1 ! i) = ?g (?t0 ! i)"
      using arg_cong [OF k1, of "\<lambda>l. l ! i"] by simp
    with that len0 show ?thesis by (simp add: ranked_weights_def)
  qed
  have lw: "length (ranked_weights h s) = length ?t1"
    using len0 by (simp add: ranked_weights_def)
  have g1: "getSignerQueue visit_a draws_a h s =
      (if ?q < 0 then Inl panic_slice_bounds
       else Inr (shuffle draws_a 0 (map addr (take (nat ?q) ?t1))))"
    by (simp add: getSignerQueue_def Let_def)
  have g2: "getSignerQueue visit_b draws_b h s =
      (if ?q < 0 then Inl panic_slice_bounds
       else Inr (shuffle draws_b 0 (map addr (take (nat ?q) ?t2))))"
    by (simp add: getSignerQueue_def Let_def len [symmetric])
  show ?thesis
  proof (cases "?q < 0")
    case True
    then show ?thesis by (simp only: g1 g2 if_True)
  next
    case False
    have c: "nat ?q = 0 \<or> length ?t1 \<le> nat ?q
        \<or> ?g (?t1 ! (nat ?q - 1)) < ?g (?t1 ! nat ?q)"
    proof (cases "0 < nat ?q \<and> nat ?q < length ?t1")
      case False
      then show ?thesis by linarith
    next
      case True
      then have q: "?q = ?M" "0 < ?M" "?M < int (length ?t1)"
        by (auto split: if_splits)
      with cut lw have "ranked_weights h s ! nat ?M < ranked_weights h s ! (nat ?M - 1)"
        by linarith
      moreover from q have "nat ?M < length ?t1" "nat ?M - 1 < length ?t1" by linarith+
      ultimately have "?g (?t1 ! (nat ?M - 1)) < ?g (?t1 ! nat ?M)"
        by (simp add: w)
      with q(1) show ?thesis by simp
    qed
    have "mset (take (nat ?q) ?t1) = mset (take (nat ?q) ?t2)"
      using m s1 s2 c by (rule take_members_fixed)
    then have "mset (map addr (take (nat ?q) ?t1)) = mset (map addr (take (nat ?q) ?t2))"
      by simp
    then have "mset (shuffle draws_a 0 (map addr (take (nat ?q) ?t1))) =
        mset (shuffle draws_b 0 (map addr (take (nat ?q) ?t2)))"
      by (simp only: mset_shuffle)
    with False show ?thesis by (simp add: g1 g2)
  qed
qed

theorem C3_queue_members_fixed_witness:
  "ranked_weights heap_queue snap_queue = [1000, - 10000] \<and>
   map_sum (\<lambda>e. e) mset (getSignerQueue (\<lambda>ks. ks) (\<lambda>i. i) heap_queue snap_queue) =
   map_sum (\<lambda>e. e) mset (getSignerQueue rev (\<lambda>i. 0) heap_queue snap_queue) \<and>
   getSignerQueue rev (\<lambda>i. 0) heap_queue snap_queue = Inr [2]"
proof -
  have v1: "mset ((\<lambda>ks. ks) (keys_of (Tally snap_queue))) = mset (keys_of (Tally snap_queue))"
    by simp
  have v2: "mset (rev (keys_of (Tally snap_queue))) = mset (keys_of (Tally snap_queue))"
    by simp
  have w: "ranked_weights heap_queue snap_queue = [1000, - 10000]"
    by (simp add: queue_defs)
  have cut: "sint (MaxSignerCount (config snap_queue)) \<le> 0
      \<or> int (length (ranked_weights heap_queue snap_queue))
          \<le> sint (MaxSignerCount (config snap_queue))
      \<or> ranked_weights heap_queue snap_queue ! nat (sint (MaxSignerCount (config snap_queue)))
          < ranked_weights heap_queue snap_queue
              ! (nat (sint (MaxSignerCount (config snap_queue))) - 1)"
    by (simp add: w) (simp add: snap_queue_def)
  have r: "getSignerQueue rev (\<lambda>i. 0) heap_queue snap_queue = Inr [2]"
    by (simp add: queue_defs shuffle.simps)
  from C3_queue_members_fixed [where visit_a = "\<lambda>ks. ks" and visit_b = rev
      and draws_a = "\<lambda>i. i" and draws_b = "\<lambda>i. 0", OF v1 v2 cut] w r
  show ?thesis by simp
qed

theorem C3_queue_differs:
  "getSignerQueue (\<lambda>ks. ks) (\<lambda>i. i) heap_queue snap_pair = Inr [1, 2] \<and>
   getSignerQueue (\<lambda>ks. ks) (\<lambda>i. 0) heap_queue snap_pair = Inr [2, 1] \<and>
   ranked_weights heap_tie snap_tie = [1000, 1000, 1000] \<and>
   getSignerQueue (\<lambda>ks. ks) (\<lambda>i. 0) heap_tie snap_tie = Inr [1] \<and>
   getSignerQueue rev (\<lambda>i. 0) heap_tie snap_tie = Inr [3]"
  by (simp add: queue_defs shuffle.simps)

text \<open>
  C4. Specified: the reward never wraps the punishment counter below zero. In the code
  the counter is a \<^verbatim>\<open>uint64\<close>: with a punishment of 5, the reward of 10 for block 1
  leaves \<open>2 ^ 64 - 5\<close>, and the test \<^verbatim>\<open><= 0\<close> does not remove the entry.
\<close>

theorem C4_reward_wraps:
  "map_of (Punished snap_punished) 9 = Some 5 \<and>
   (case apply_headers env0 heap1 snap_punished [header1] of
      (h', Inr s') \<Rightarrow> map_of (Punished s') 9 = Some 18446744073709551611
    | (h', Inl e) \<Rightarrow> False)"
  by (simp add: apply_defs heap_defs input_defs)

text \<open>
  C5. Specified: after \<^verbatim>\<open>apply\<close> the tally values sum to the stakes of the votes. In
  the code the first vote for a candidate makes the tally entry and the vote's stake one
  cell. From the empty ledger, voters 1 and 2 back candidate 7 with 5 and 3, then voter 1
  moves to candidate 8 with 5: the tally of 7 is emptied and removed though voter 2 still
  backs 7, and the sums are 5 and 8.
\<close>

theorem C5_tally_differs_from_stakes:
  "tally_total heap_empty snap_empty = stake_total heap_empty snap_empty \<and>
   (case apply_headers env0 heap_empty snap_empty [header_two_votes, header_revote] of
      (h', Inr s') \<Rightarrow>
        tally_total h' s' = 5 \<and> stake_total h' s' = 8 \<and>
        map_of (Tally s') 7 = None \<and>
        map_option Candidate (map_of (Votes s') 2) = Some 7
    | (h', Inl e) \<Rightarrow> False)"
  by (simp add: apply_defs heap_defs input_defs tally_total_def stake_total_def)


text \<open>
  C6. Specified: \<^verbatim>\<open>apply\<close> with no header returns its input, and with headers whose
  numbers are not consecutive, or do not start at the snapshot's number plus one, it fails
  with \<^verbatim>\<open>errInvalidVotingChain\<close>. The first part holds. For the second the code compares
  \<^verbatim>\<open>Number.Uint64()\<close>, the low 64 bits of the absolute value, with the \<^verbatim>\<open>uint64\<close>
  successor: on the snapshot at block 0 it accepts the header numbered \<open>2 ^ 64 + 1\<close>,
  and after header 1 the header numbered \<open>2 ^ 64 + 2\<close>. What holds: the failure occurs
  whenever the numbers read as \<^verbatim>\<open>uint64\<close> break the chain, and so whenever the numbers
  themselves break it, provided every header number lies between 0 and \<open>2 ^ 64 - 2\<close> and
  the snapshot's number is below \<open>2 ^ 64 - 1\<close>. The heap is left as it was.
\<close>

theorem C6_apply_sanity_check:
  "apply_headers E h s [] = (h, Inr s) \<and>
   (headers \<noteq> [] \<and>
    ((\<exists>i. Suc i < length headers \<and>
          Uint64 (Header_Number (headers ! Suc i)) \<noteq> Uint64 (Header_Number (headers ! i)) + 1)
     \<or> Uint64 (Header_Number (headers ! 0)) \<noteq> Number s + 1)
    \<longrightarrow> apply_headers E h s headers = (h, Inl errInvalidVotingChain)) \<and>
   (headers \<noteq> [] \<and>
    (\<forall>header \<in> set headers. 0 \<le> Header_Number header \<and> Header_Number header < 2 ^ 64 - 1) \<and>
    uint (Number s) < 2 ^ 64 - 1 \<and>
    ((\<exists>i. Suc i < length headers \<and>
          Header_Number (headers ! Suc i) \<noteq> Header_Number (headers ! i) + 1)
     \<or> Header_Number (headers ! 0) \<noteq> uint (Number s) + 1)
    \<longrightarrow> apply_headers E h s headers = (h, Inl errInvalidVotingChain))"
proof -
  have machine: "apply_headers E h s hs = (h, Inl errInvalidVotingChain)"
    if a: "hs \<noteq> [] \<and>
      ((\<exists>i. Suc i < length hs \<and>
            Uint64 (Header_Number (hs ! Suc i)) \<noteq> Uint64 (Header_Number (hs ! i)) + 1)
       \<or> Uint64 (Header_Number (hs ! 0)) \<noteq> Number s + 1)" for hs
  proof -
    from a have ne: "hs \<noteq> []" by simp
    then have hd: "hd hs = hs ! 0" by (simp add: hd_conv_nth)
    from a consider
        (gap) "\<exists>i. Suc i < length hs \<and>
            Uint64 (Header_Number (hs ! Suc i)) \<noteq> Uint64 (Header_Number (hs ! i)) + 1"
      | (start) "Uint64 (Header_Number (hs ! 0)) \<noteq> Number s + 1" by blast
    then show ?thesis
    proof cases
      case gap
      then have "\<not> consecutive hs" by (simp add: consecutive_nth)
      with ne show ?thesis by (simp add: apply_headers_def)
    next
      case start
      with ne hd show ?thesis by (simp add: apply_headers_def)
    qed
  qed
  have numbers: "apply_headers E h s headers = (h, Inl errInvalidVotingChain)"
    if b: "headers \<noteq> [] \<and>
      (\<forall>header \<in> set headers. 0 \<le> Header_Number header \<and> Header_Number header < 2 ^ 64 - 1) \<and>
      uint (Number s) < 2 ^ 64 - 1 \<and>
      ((\<exists>i. Suc i < length headers \<and>
            Header_Number (headers ! Suc i) \<noteq> Header_Number (headers ! i) + 1)
       \<or> Header_Number (headers ! 0) \<noteq> uint (Number s) + 1)"
  proof -
    from b have ne: "headers \<noteq> []" by simp
    from b have rng: "0 \<le> Header_Number (headers ! i) \<and> Header_Number (headers ! i) < 2 ^ 64 - 1"
      if "i < length headers" for i using that by simp
    from b have sn: "uint (Number s) < 2 ^ 64 - 1" by simp
    from b consider
        (gap) i where "Suc i < length headers"
          "Header_Number (headers ! Suc i) \<noteq> Header_Number (headers ! i) + 1"
      | (start) "Header_Number (headers ! 0) \<noteq> uint (Number s) + 1" by blast
    then have "(\<exists>i. Suc i < length headers \<and>
            Uint64 (Header_Number (headers ! Suc i)) \<noteq> Uint64 (Header_Number (headers ! i)) + 1)
       \<or> Uint64 (Header_Number (headers ! 0)) \<noteq> Number s + 1"
    proof cases
      case gap
      from gap(1) have r1: "0 \<le> Header_Number (headers ! Suc i)"
        "Header_Number (headers ! Suc i) < 2 ^ 64" using rng [of "Suc i"] by simp_all
      from gap(1) have r0: "0 \<le> Header_Number (headers ! i)"
        "Header_Number (headers ! i) < 2 ^ 64 - 1" using rng [of i] by simp_all
      from gap(2) have
        "Uint64 (Header_Number (headers ! Suc i)) \<noteq> Uint64 (Header_Number (headers ! i)) + 1"
        by (simp only: Uint64_succ_iff [OF r1 r0]) simp
      with gap(1) show ?thesis by blast
    next
      case start
      from ne have r0: "0 \<le> Header_Number (headers ! 0)" "Header_Number (headers ! 0) < 2 ^ 64"
        using rng [of 0] by simp_all
      from start have "Uint64 (Header_Number (headers ! 0)) \<noteq> Number s + 1"
        by (simp only: Uint64_start_iff [OF r0 sn]) simp
      then show ?thesis by blast
    qed
    with ne show ?thesis by (intro machine) blast
  qed
  have "apply_headers E h s [] = (h, Inr s)" by (simp add: apply_headers_def)
  with machine [of headers] numbers show ?thesis by blast
qed

theorem C6_apply_sanity_check_witness:
  "apply_headers env0 heap1 snap1 [] = (heap1, Inr snap1) \<and>
   apply_headers env0 heap1 snap1 [header1, header3] = (heap1, Inl errInvalidVotingChain) \<and>
   apply_headers env0 heap1 snap1 [header3] = (heap1, Inl errInvalidVotingChain)"
proof -
  have rng: "\<forall>header \<in> set [header1, header3].
      0 \<le> Header_Number header \<and> Header_Number header < 2 ^ 64 - 1"
    by (simp add: header1_def header3_def)
  have sn: "uint (Number snap1) < 2 ^ 64 - 1" by (simp add: snap1_def)
  have gap: "Suc 0 < length [header1, header3] \<and>
      Header_Number ([header1, header3] ! Suc 0) \<noteq> Header_Number ([header1, header3] ! 0) + 1"
    by (simp add: header1_def header3_def)
  then have "\<exists>i. Suc i < length [header1, header3] \<and>
      Header_Number ([header1, header3] ! Suc i) \<noteq> Header_Number ([header1, header3] ! i) + 1" ..
  with rng sn C6_apply_sanity_check [of env0 heap1 snap1 "[header1, header3]"]
  have a: "apply_headers env0 heap1 snap1 [] = (heap1, Inr snap1) \<and>
      apply_headers env0 heap1 snap1 [header1, header3] = (heap1, Inl errInvalidVotingChain)"
    by simp
  have "Uint64 (Header_Number ([header3] ! 0)) \<noteq> Number snap1 + 1"
    by (simp add: header3_def snap1_def Uint64_def)
  with C6_apply_sanity_check [of env0 heap1 snap1 "[header3]"]
  have "apply_headers env0 heap1 snap1 [header3] = (heap1, Inl errInvalidVotingChain)"
    by simp
  with a show ?thesis by simp
qed

theorem C6_wrapped_numbers_accepted:
  "Header_Number header_far \<noteq> uint (Number snap1) + 1 \<and>
   (case apply_headers env0 heap1 snap1 [header_far] of
      (h', Inr s') \<Rightarrow> Number s' = 1
    | (h', Inl e) \<Rightarrow> False) \<and>
   Header_Number header_far2 \<noteq> Header_Number header1 + 1 \<and>
   (case apply_headers env0 heap1 snap1 [header1, header_far2] of
      (h', Inr s') \<Rightarrow> Number s' = 2
    | (h', Inl e) \<Rightarrow> False)"
  by (simp add: apply_defs heap_defs input_defs header_far_def header_far2_def)

text \<open>
  C7. Specified: after the header loop \<^verbatim>\<open>apply\<close> expires votes only while the voters
  and the tally candidates both exceed \<^verbatim>\<open>MaxSignerCount\<close>, and each voter whose recorded
  block is more than \<^verbatim>\<open>Epoch\<close> behind the new number loses its vote, its stake being
  subtracted from its candidate's tally. In the code the seat count is compared as
  \<^verbatim>\<open>int(MaxSignerCount)\<close>, the age is a \<^verbatim>\<open>uint64\<close> difference of \<^verbatim>\<open>Uint64()\<close>
  values, the entries deleted are those under the vote's \<^verbatim>\<open>Voter\<close> field, and the
  subtraction dereferences the tally entry without a test. So with a seat count of
  \<open>2 ^ 63\<close> a single voter is expired; a ledger that \<^verbatim>\<open>apply\<close> itself reaches from the
  empty one makes the next \<^verbatim>\<open>apply\<close> panic where the vote was to be removed; a voter
  recorded at block \<open>- 95\<close> is kept at block 101 and a voter recorded at block 200 is
  expired there; and a vote stored under voter 1 with \<^verbatim>\<open>Voter\<close> 2 survives the expiry of
  voter 1.

  What holds, for a seat count below \<open>2 ^ 63\<close>, an input whose votes are stored under their
  own voter and a call of \<^verbatim>\<open>apply\<close> that returns a snapshot \<open>s'\<close>, with \<open>mid\<close> the
  working copy after the loop over the headers:
  \<^item> the number of \<open>s'\<close> is that of \<open>mid\<close> plus the count of headers;
  \<^item> if the voters or the tally candidates of \<open>mid\<close> do not exceed the seat count, no vote
    is expired;
  \<^item> a voter whose recorded block lies between 0 and the new number and is at most
    \<^verbatim>\<open>Epoch\<close> behind it keeps its vote and its entry;
  \<^item> if the voters were at or above the seat count, they still are in \<open>s'\<close>;
  \<^item> if the voters and the tally candidates of \<open>s'\<close> still exceed the seat count (and
    the range over the voters visits every key), every voter with a vote whose recorded
    block is 0 or more and more than \<^verbatim>\<open>Epoch\<close> behind the new number has lost its vote
    and its entry;
  \<^item> if after the loop over the headers no cell is shared (between two tally entries, or
    between a tally entry and a vote's stake) and every tally cell holds the sum of the
    stakes of the votes for its candidate, the same holds of \<open>s'\<close>: the stakes of the
    expired votes have been subtracted from the tallies of their candidates;
  \<^item> one visit of the loop that finds both counts above the seat count and such an old
    voter, whose candidate has a tally entry, removes the voter from \<^verbatim>\<open>Votes\<close> and
    \<^verbatim>\<open>Voters\<close>, subtracts the stake from the cell of the candidate's tally, changes no
    other cell, deletes the tally entry if the cell is now zero, and goes on from there.
\<close>

theorem C7_expire_votes:
  assumes ok: "snd (apply_headers E h s headers) = Inr s'"
    and ne: "headers \<noteq> []"
    and loop: "snd (applyHeaders E (copy h s) headers) = Inr mid"
    and max: "unat (MaxSignerCount (config s)) < 2 ^ 63"
    and keyed: "keyed (Votes s)"
  shows
    "Number s' = Number mid + of_nat (length headers)
   \<and> (len (Voters mid) \<le> unat (MaxSignerCount (config s))
        \<or> len (Tally mid) \<le> unat (MaxSignerCount (config s))
      \<longrightarrow> Votes s' = Votes mid \<and> Voters s' = Voters mid)
   \<and> (map_of (Voters mid) v = Some n
      \<and> 0 \<le> n \<and> n \<le> uint (Number s')
      \<and> uint (Number s') - n \<le> uint (Epoch (config s))
      \<longrightarrow> map_of (Voters s') v = Some n \<and> map_of (Votes s') v = map_of (Votes mid) v)
   \<and> (unat (MaxSignerCount (config s)) \<le> len (Voters mid)
      \<longrightarrow> unat (MaxSignerCount (config s)) \<le> len (Voters s'))
   \<and> (mset (rangeOrder E (keys_of (Voters mid))) = mset (keys_of (Voters mid))
      \<and> unat (MaxSignerCount (config s)) < len (Voters s')
      \<and> unat (MaxSignerCount (config s)) < len (Tally s')
      \<and> map_of (Voters mid) w = Some m \<and> 0 \<le> m
      \<and> uint (Epoch (config s)) < uint (Number s') - m
      \<and> map_of (Votes mid) w \<noteq> None
      \<longrightarrow> map_of (Voters s') w = None \<and> map_of (Votes s') w = None)
   \<and> (unshared mid \<and> tally_matches (fst (applyHeaders E (copy h s) headers)) mid
      \<longrightarrow> tally_matches (fst (apply_headers E h s headers)) s')
   \<and> (unat (MaxSignerCount (config s)) < len (Voters snap)
      \<and> unat (MaxSignerCount (config s)) < len (Tally snap)
      \<and> map_of (Voters snap) voter = Some voteNumber
      \<and> 0 \<le> voteNumber \<and> voteNumber \<le> uint (Number snap)
      \<and> uint (Epoch (config s)) < uint (Number snap) - voteNumber
      \<and> map_of (Votes snap) voter = Some vote \<and> Voter vote = voter
      \<and> map_of (Tally snap) (Candidate vote) = Some t
      \<longrightarrow> (\<exists>hp' snap'.
            expireVotes (config s) (hp, snap) (voter # rest)
              = expireVotes (config s) (hp', snap') rest
          \<and> rd hp' t = rd hp t - rd hp (Stake vote)
          \<and> (\<forall>p. p \<noteq> t \<longrightarrow> rd hp' p = rd hp p)
          \<and> map_of (Votes snap') = (map_of (Votes snap))(voter := None)
          \<and> map_of (Voters snap') = (map_of (Voters snap))(voter := None)
          \<and> map_of (Tally snap') =
               (if rd hp' t = 0 then (map_of (Tally snap))(Candidate vote := None)
                else map_of (Tally snap))))"
proof -
  let ?cfg = "config s"
  let ?M = "MaxSignerCount ?cfg"
  let ?snap2 = "mid\<lparr>Number := Number mid + of_nat (length headers),
                       Hash := Header_Hash E (last headers)\<rparr>"
  from max have sM: "sint ?M = int (unat ?M)" by (rule sint_small)
  have le_M: "int k \<le> sint ?M \<longleftrightarrow> k \<le> unat ?M" for k
    by (simp only: sM of_nat_le_iff)
  have M_le: "sint ?M \<le> int k \<longleftrightarrow> unat ?M \<le> k" for k
    by (simp only: sM of_nat_le_iff)
  from ok ne loop obtain h1 h' snap3 where
    ex: "expireVotes ?cfg (h1, ?snap2) (rangeOrder E (keys_of (Voters mid))) = (h', Inr snap3)"
    and s': "s' = snap3\<lparr>Tally := sweepTally h' (Tally snap3)\<rparr>"
    and hl: "applyHeaders E (copy h s) headers = (h1, Inr mid)"
    by (rule apply_headers_tail)
  obtain h0 snap0 where cp: "copy h s = (h0, snap0)" by (cases "copy h s")
  from copy_keyed [OF keyed, of h] cp have "keyed (Votes snap0)" by simp
  with hl cp have k1: "keyed (Votes mid)" by (auto dest: applyHeaders_keyed)
  then have k2: "keyed (Votes ?snap2)" by simp
  note mono = expireVotes_mono [OF ex]
  from mono s' have num: "Number s' = Number mid + of_nat (length headers)" by simp
  have gate: "len (Voters mid) \<le> unat ?M \<or> len (Tally mid) \<le> unat ?M
      \<longrightarrow> Votes s' = Votes mid \<and> Voters s' = Voters mid"
  proof
    assume "len (Voters mid) \<le> unat ?M \<or> len (Tally mid) \<le> unat ?M"
    then have "int (len (Voters ?snap2)) \<le> sint ?M \<or> int (len (Tally ?snap2)) \<le> sint ?M"
      by (simp add: le_M)
    then have "expireVotes ?cfg (h1, ?snap2) (rangeOrder E (keys_of (Voters mid)))
        = (h1, Inr ?snap2)" by (rule expireVotes_stop)
    with ex s' show "Votes s' = Votes mid \<and> Voters s' = Voters mid" by auto
  qed
  have young: "map_of (Voters mid) v = Some n
      \<and> 0 \<le> n \<and> n \<le> uint (Number s')
      \<and> uint (Number s') - n \<le> uint (Epoch ?cfg)
      \<longrightarrow> map_of (Voters s') v = Some n \<and> map_of (Votes s') v = map_of (Votes mid) v"
  proof
    assume a: "map_of (Voters mid) v = Some n
      \<and> 0 \<le> n \<and> n \<le> uint (Number s')
      \<and> uint (Number s') - n \<le> uint (Epoch ?cfg)"
    with num have "\<not> Epoch ?cfg < Number ?snap2 - Uint64 n"
      by (simp add: expired_iff)
    moreover from a have "map_of (Voters ?snap2) v = Some n" by simp
    ultimately have "map_of (Voters snap3) v = Some n
        \<and> map_of (Votes snap3) v = map_of (Votes ?snap2) v"
      using ex k2 by (intro expireVotes_young)
    with s' show "map_of (Voters s') v = Some n \<and> map_of (Votes s') v = map_of (Votes mid) v"
      by simp
  qed
  have floor: "unat ?M \<le> len (Voters mid) \<longrightarrow> unat ?M \<le> len (Voters s')"
  proof
    assume "unat ?M \<le> len (Voters mid)"
    then have "sint ?M \<le> int (len (Voters ?snap2))" by (simp add: M_le)
    with ex have "sint ?M \<le> int (len (Voters snap3))" by (rule expireVotes_floor)
    with s' show "unat ?M \<le> len (Voters s')" by (simp add: M_le)
  qed
  have complete: "mset (rangeOrder E (keys_of (Voters mid))) = mset (keys_of (Voters mid))
      \<and> unat ?M < len (Voters s') \<and> unat ?M < len (Tally s')
      \<and> map_of (Voters mid) w = Some m \<and> 0 \<le> m
      \<and> uint (Epoch ?cfg) < uint (Number s') - m
      \<and> map_of (Votes mid) w \<noteq> None
      \<longrightarrow> map_of (Voters s') w = None \<and> map_of (Votes s') w = None"
  proof
    assume a: "mset (rangeOrder E (keys_of (Voters mid))) = mset (keys_of (Voters mid))
      \<and> unat ?M < len (Voters s') \<and> unat ?M < len (Tally s')
      \<and> map_of (Voters mid) w = Some m \<and> 0 \<le> m
      \<and> uint (Epoch ?cfg) < uint (Number s') - m
      \<and> map_of (Votes mid) w \<noteq> None"
    then have "w \<in> set (keys_of (Voters mid))" by (auto intro: in_keys_of)
    with a have visited: "w \<in> set (rangeOrder E (keys_of (Voters mid)))"
      by (metis mset_eq_setD)
    from a s' have c1: "\<not> int (len (Voters snap3)) \<le> sint ?M" by (simp add: le_M)
    have "len (Tally s') \<le> len (Tally snap3)" using s' by (simp add: len_sweepTally)
    with a have c2: "\<not> int (len (Tally snap3)) \<le> sint ?M" by (simp add: le_M)
    from a have "0 \<le> uint (Epoch ?cfg)" "uint (Epoch ?cfg) < uint (Number s') - m" by simp_all
    then have "m \<le> uint (Number s')" by linarith
    with a num have old: "Epoch ?cfg < Number ?snap2 - Uint64 m" by (simp add: expired_iff)
    from a have vm: "map_of (Voters ?snap2) w = Some m" "map_of (Votes ?snap2) w \<noteq> None"
      by simp_all
    from expireVotes_complete [OF ex k2 c1 c2 visited vm(1) old vm(2)] s'
    show "map_of (Voters s') w = None \<and> map_of (Votes s') w = None" by simp
  qed
  have keep: "unshared mid \<and> tally_matches (fst (applyHeaders E (copy h s) headers)) mid
      \<longrightarrow> tally_matches (fst (apply_headers E h s headers)) s'"
    using apply_keeps_tally [OF ok ne loop keyed] by blast
  have step: "unat ?M < len (Voters snap) \<and> unat ?M < len (Tally snap)
      \<and> map_of (Voters snap) voter = Some voteNumber
      \<and> 0 \<le> voteNumber \<and> voteNumber \<le> uint (Number snap)
      \<and> uint (Epoch ?cfg) < uint (Number snap) - voteNumber
      \<and> map_of (Votes snap) voter = Some vote \<and> Voter vote = voter
      \<and> map_of (Tally snap) (Candidate vote) = Some t
      \<longrightarrow> (\<exists>hp' snap'.
            expireVotes ?cfg (hp, snap) (voter # rest) = expireVotes ?cfg (hp', snap') rest
          \<and> rd hp' t = rd hp t - rd hp (Stake vote)
          \<and> (\<forall>p. p \<noteq> t \<longrightarrow> rd hp' p = rd hp p)
          \<and> map_of (Votes snap') = (map_of (Votes snap))(voter := None)
          \<and> map_of (Voters snap') = (map_of (Voters snap))(voter := None)
          \<and> map_of (Tally snap') =
               (if rd hp' t = 0 then (map_of (Tally snap))(Candidate vote := None)
                else map_of (Tally snap)))"
  proof
    assume a: "unat ?M < len (Voters snap) \<and> unat ?M < len (Tally snap)
      \<and> map_of (Voters snap) voter = Some voteNumber
      \<and> 0 \<le> voteNumber \<and> voteNumber \<le> uint (Number snap)
      \<and> uint (Epoch ?cfg) < uint (Number snap) - voteNumber
      \<and> map_of (Votes snap) voter = Some vote \<and> Voter vote = voter
      \<and> map_of (Tally snap) (Candidate vote) = Some t"
    let ?h' = "Int_Sub hp t t (Stake vote)"
    let ?snap' = "snap\<lparr>Tally := (if rd ?h' t = 0
                             then AList.delete (Candidate vote) (Tally snap)
                             else Tally snap),
                      Votes := AList.delete (Voter vote) (Votes snap),
                      Voters := AList.delete (Voter vote) (Voters snap)\<rparr>"
    from a have own: "Voter vote = voter" by simp
    from a have old: "Epoch ?cfg < Number snap - Uint64 voteNumber"
      by (simp add: expired_iff)
    from a have ev: "expireVote (hp, snap) voter = (?h', Inr ?snap')"
      by (simp add: expireVote_def Let_def)
    from a have big:
      "\<not> (int (len (Voters snap)) \<le> sint ?M \<or> int (len (Tally snap)) \<le> sint ?M)"
      by (simp add: le_M)
    from a have vn: "map_of (Voters snap) voter = Some voteNumber" by simp
    from vn big old ev
    have st: "expireVotes ?cfg (hp, snap) (voter # rest) = expireVotes ?cfg (?h', ?snap') rest"
      by simp
    have obs: "rd ?h' t = rd hp t - rd hp (Stake vote) \<and> (\<forall>p. p \<noteq> t \<longrightarrow> rd ?h' p = rd hp p)"
      by (simp add: Int_Sub_def wr_def rd_def)
    have maps: "map_of (Votes ?snap') = (map_of (Votes snap))(voter := None)
        \<and> map_of (Voters ?snap') = (map_of (Voters snap))(voter := None)
        \<and> map_of (Tally ?snap') =
               (if rd ?h' t = 0 then (map_of (Tally snap))(Candidate vote := None)
                else map_of (Tally snap))"
      by (simp add: delete_conv' own)
    from st obs maps show "\<exists>hp' snap'.
            expireVotes ?cfg (hp, snap) (voter # rest) = expireVotes ?cfg (hp', snap') rest
          \<and> rd hp' t = rd hp t - rd hp (Stake vote)
          \<and> (\<forall>p. p \<noteq> t \<longrightarrow> rd hp' p = rd hp p)
          \<and> map_of (Votes snap') = (map_of (Votes snap))(voter := None)
          \<and> map_of (Voters snap') = (map_of (Voters snap))(voter := None)
          \<and> map_of (Tally snap') =
               (if rd hp' t = 0 then (map_of (Tally snap))(Candidate vote := None)
                else map_of (Tally snap))"
      by blast
  qed
  from num gate young floor complete keep step show ?thesis by (intro conjI)
qed

theorem C7_expire_votes_witness:
  "snd (apply_headers env0 heap_expiry snap_open [header101]) = Inr snap_open_final
   \<and> Number snap_open_final = 101
   \<and> map_of (Voters snap_open_final) 2 = Some 95
   \<and> map_of (Voters snap_open_final) 3 = None \<and> map_of (Votes snap_open_final) 3 = None
   \<and> tally_matches (fst (apply_headers env0 heap_expiry snap_open [header101])) snap_open_final
   \<and> snd (apply_headers env0 heap1 snap1 [header1]) = Inr snap1_final
   \<and> Votes snap1_final = Votes snap1_loop \<and> Voters snap1_final = Voters snap1_loop
   \<and> (\<exists>hp' snap'.
        expireVotes (config snap_open) (heap_expiry, snap_open) [1, 2, 3]
          = expireVotes (config snap_open) (hp', snap') [2, 3]
        \<and> rd hp' 0 = 0 \<and> map_of (Votes snap') 1 = None \<and> map_of (Tally snap') 7 = None)"
proof -
  let ?vote = "\<lparr>Voter = 1, Candidate = 7, Stake = 3\<rparr>"
  have ok: "snd (apply_headers env0 heap_expiry snap_open [header101]) = Inr snap_open_final"
    by (simp add: apply_defs heap_defs env0_def expiry_defs)
  have loop: "snd (applyHeaders env0 (copy heap_expiry snap_open) [header101])
      = Inr snap_open_loop"
    by (simp add: apply_defs heap_defs env0_def expiry_defs)
  have ne: "[header101] \<noteq> []" by simp
  have max: "unat (MaxSignerCount (config snap_open)) < 2 ^ 63" by (simp add: snap_open_def)
  have keyed: "keyed (Votes snap_open)" by (simp add: keyed_def expiry_defs)
  note T = C7_expire_votes [OF ok ne loop max keyed, where v = 2 and n = 95 and w = 3
      and m = 6 and snap = snap_open and hp = heap_expiry and voter = 1 and voteNumber = 5
      and vote = ?vote and t = 0 and rest = "[2, 3]"]
  have young: "map_of (Voters snap_open_loop) 2 = Some 95
      \<and> (0::int) \<le> 95 \<and> 95 \<le> uint (Number snap_open_final)
      \<and> uint (Number snap_open_final) - 95 \<le> uint (Epoch (config snap_open))"
    by (simp add: expiry_defs)
  have old: "mset (rangeOrder env0 (keys_of (Voters snap_open_loop)))
        = mset (keys_of (Voters snap_open_loop))
      \<and> unat (MaxSignerCount (config snap_open)) < len (Voters snap_open_final)
      \<and> unat (MaxSignerCount (config snap_open)) < len (Tally snap_open_final)
      \<and> map_of (Voters snap_open_loop) 3 = Some 6 \<and> (0::int) \<le> 6
      \<and> uint (Epoch (config snap_open)) < uint (Number snap_open_final) - 6
      \<and> map_of (Votes snap_open_loop) 3 \<noteq> None"
    by (simp add: expiry_defs env0_def len_def)
  have step: "unat (MaxSignerCount (config snap_open)) < len (Voters snap_open)
      \<and> unat (MaxSignerCount (config snap_open)) < len (Tally snap_open)
      \<and> map_of (Voters snap_open) 1 = Some 5
      \<and> (0::int) \<le> 5 \<and> 5 \<le> uint (Number snap_open)
      \<and> uint (Epoch (config snap_open)) < uint (Number snap_open) - 5
      \<and> map_of (Votes snap_open) 1 = Some ?vote \<and> Voter ?vote = 1
      \<and> map_of (Tally snap_open) (Candidate ?vote) = Some 0"
    by (simp add: expiry_defs len_def)
  have whole: "unshared snap_open_loop
      \<and> tally_matches (fst (applyHeaders env0 (copy heap_expiry snap_open) [header101]))
            snap_open_loop"
    by (simp add: unshared_def tally_matches_def stake_for_def apply_defs heap_defs env0_def
        expiry_defs)
  from T whole have tm:
    "tally_matches (fst (apply_headers env0 heap_expiry snap_open [header101])) snap_open_final"
    by blast
  from T young have y: "map_of (Voters snap_open_final) 2 = Some 95" by blast
  from T old have o: "map_of (Voters snap_open_final) 3 = None
      \<and> map_of (Votes snap_open_final) 3 = None" by blast
  from T have nm: "Number snap_open_final = Number snap_open_loop + of_nat (length [header101])"
    by blast
  then have n: "Number snap_open_final = 101" by (simp add: expiry_defs)
  from T step obtain hp' snap' where
    r: "expireVotes (config snap_open) (heap_expiry, snap_open) [1, 2, 3]
          = expireVotes (config snap_open) (hp', snap') [2, 3]"
    and c: "rd hp' 0 = rd heap_expiry 0 - rd heap_expiry (Stake ?vote)"
    and vs: "map_of (Votes snap') = (map_of (Votes snap_open))(1 := None)"
    and tl: "map_of (Tally snap') =
               (if rd hp' 0 = 0 then (map_of (Tally snap_open))(Candidate ?vote := None)
                else map_of (Tally snap_open))"
    by blast
  from c have z: "rd hp' 0 = 0" by (simp add: heap_expiry_def rd_def)
  from vs have v1: "map_of (Votes snap') 1 = None" by simp
  from tl z have t7: "map_of (Tally snap') 7 = None" by simp
  from r z v1 t7 have stp: "\<exists>hp' snap'.
        expireVotes (config snap_open) (heap_expiry, snap_open) [1, 2, 3]
          = expireVotes (config snap_open) (hp', snap') [2, 3]
        \<and> rd hp' 0 = 0 \<and> map_of (Votes snap') 1 = None \<and> map_of (Tally snap') 7 = None"
    by blast
  have ok1: "snd (apply_headers env0 heap1 snap1 [header1]) = Inr snap1_final"
    by (simp add: apply_defs heap_defs input_defs expiry_defs)
  have loop1: "snd (applyHeaders env0 (copy heap1 snap1) [header1]) = Inr snap1_loop"
    by (simp add: apply_defs heap_defs input_defs expiry_defs)
  have ne1: "[header1] \<noteq> []" by simp
  have max1: "unat (MaxSignerCount (config snap1)) < 2 ^ 63" by (simp add: snap1_def cfg0_def)
  have keyed1: "keyed (Votes snap1)" by (simp add: keyed_def snap1_def)
  have shut: "len (Voters snap1_loop) \<le> unat (MaxSignerCount (config snap1))"
    by (simp add: snap1_def cfg0_def expiry_defs len_def)
  from C7_expire_votes [OF ok1 ne1 loop1 max1 keyed1] shut
  have g: "Votes snap1_final = Votes snap1_loop \<and> Voters snap1_final = Voters snap1_loop"
    by blast
  from ok n y o tm ok1 g stp show ?thesis by blast
qed

theorem C7_expiry_fails:
  "len (Voters snap_huge) \<le> unat (MaxSignerCount (config snap_huge))
   \<and> map_of (Votes snap_huge) 1 \<noteq> None
   \<and> (case apply_headers env0 heap1 snap_huge [header21] of
        (h', Inr s') \<Rightarrow> Votes s' = [] \<and> Voters s' = []
      | (h', Inl e) \<Rightarrow> False)
   \<and> (case apply_headers env0 heap_empty snap_small [header_two_votes, header_revote] of
        (ha, Inr sa) \<Rightarrow>
          map_of (Voters sa) 2 = Some 1
          \<and> map_option Candidate (map_of (Votes sa) 2) = Some 7
          \<and> unat (MaxSignerCount (config sa)) < len (Voters sa)
          \<and> unat (MaxSignerCount (config sa)) < len (Tally sa)
          \<and> uint (Epoch (config sa)) < 4 - 1
          \<and> snd (apply_headers env0 ha sa [header3, header4]) = Inl panic_nil_dereference
      | (ha, Inl e) \<Rightarrow> False)
   \<and> map_of (Voters snap_negative) 1 = Some (- 95)
   \<and> (case apply_headers env0 heap_expiry snap_negative [header101] of
        (h', Inr s') \<Rightarrow>
          uint (Epoch (config snap_negative)) < uint (Number s') - (- 95)
          \<and> unat (MaxSignerCount (config snap_negative)) < len (Voters s')
          \<and> unat (MaxSignerCount (config snap_negative)) < len (Tally s')
          \<and> map_of (Voters s') 1 = Some (- 95) \<and> map_of (Votes s') 1 \<noteq> None
      | (h', Inl e) \<Rightarrow> False)
   \<and> map_of (Voters snap_ahead) 2 = Some 200 \<and> map_of (Votes snap_ahead) 2 \<noteq> None
   \<and> (case apply_headers env0 heap_expiry snap_ahead [header101] of
        (h', Inr s') \<Rightarrow>
          uint (Number s') - 200 \<le> uint (Epoch (config snap_ahead))
          \<and> map_of (Voters s') 2 = None \<and> map_of (Votes s') 2 = None
      | (h', Inl e) \<Rightarrow> False)
   \<and> map_of (Voters snap_miskeyed) 1 = Some 5
   \<and> (case apply_headers env0 heap_expiry snap_miskeyed [header101] of
        (h', Inr s') \<Rightarrow>
          uint (Epoch (config snap_miskeyed)) < uint (Number s') - 5
          \<and> unat (MaxSignerCount (config snap_miskeyed)) < len (Voters s')
          \<and> unat (MaxSignerCount (config snap_miskeyed)) < len (Tally s')
          \<and> map_of (Voters s') 1 = Some 5 \<and> map_of (Votes s') 1 \<noteq> None
      | (h', Inl e) \<Rightarrow> False)"
  by (simp add: apply_defs heap_defs input_defs expiry_defs header21_def header4_def
      snap_huge_def snap_small_def snap_negative_def snap_ahead_def snap_miskeyed_def)

text \<open>
  C8. Specified: a punished candidate's stake is weighted by
  \<open>max (1000 - punishment) 300\<close>. In the code the difference is taken in \<^verbatim>\<open>uint64\<close>:
  for a punishment above 1000 it wraps, passes the floor test and becomes a negative
  \<^verbatim>\<open>int64\<close>. With one seat, candidate 1 (stake 100, punishment 1100) gets the weight
  \<open>- 10000\<close> instead of \<open>30000\<close> and loses the seat to candidate 2 (stake 1, weight 1000).
\<close>

theorem C8_weight_below_floor:
  "stake (tallyItem heap_queue snap_queue 1 0) = - 10000 \<and>
   stake (tallyItem heap_queue snap_queue 2 1) = 1000 \<and>
   rd heap_queue 0 * max (1000 - 1100) 300 = 30000 \<and>
   getSignerQueue (\<lambda>ks. ks) rand_Int heap_queue snap_queue = Inr [2]"
  by (simp add: queue_defs shuffle.simps)

text \<open>
  C9. Specified for every header time: \<^verbatim>\<open>inturn\<close> answers whether the signer stands at
  index \<open>floor ((headerTime - loopStartTime) / Period) mod len(signers)\<close>. In the code the
  difference is a \<^verbatim>\<open>uint64\<close>: for a header time before the loop start it wraps (with
  signers 10, 11, 12, loop start 1, period 2 and header time 0 the specified index is 2,
  the code's is 1), a zero period panics, and a quotient of \<open>2 ^ 63\<close> or more turns
  negative as \<^verbatim>\<open>int\<close>. What holds: for a non-empty signer list, a non-zero period, a
  header time not before the loop start and a quotient below \<open>2 ^ 63\<close>, \<^verbatim>\<open>inturn\<close>
  returns whether the signer stands at that index.
\<close>

theorem C9_inturn_index:
  assumes ne: "Signers s \<noteq> []"
    and per: "Period (config s) \<noteq> 0"
    and le: "LoopStartTime s \<le> headerTime"
    and small: "(unat headerTime - unat (LoopStartTime s)) div unat (Period (config s)) < 2 ^ 63"
  shows "inturn s signer headerTime =
           Inr (Signers s ! ((unat headerTime - unat (LoopStartTime s)) div unat (Period (config s))
                   mod length (Signers s)) = signer)"
proof -
  let ?q = "(headerTime - LoopStartTime s) div Period (config s)"
  let ?k = "(unat headerTime - unat (LoopStartTime s)) div unat (Period (config s))"
  let ?n = "length (Signers s)"
  let ?i = "go_rem (sint ?q) (int ?n)"
  have q: "unat ?q = ?k" using le by (simp add: unat_div unat_sub)
  with small have sq: "sint ?q = int ?k" by (simp add: sint_small)
  from ne have n: "0 < ?n" by simp
  have idx: "?i = int (?k mod ?n)"
    using n by (simp add: sq go_rem_nonneg zmod_int)
  have lt: "?k mod ?n < ?n" using n by (rule mod_less_divisor)
  from idx lt have a: "\<not> int ?n \<le> ?i" by linarith
  from idx have b: "\<not> ?i < 0" by linarith
  from idx have c: "nat ?i = ?k mod ?n" by simp
  from ne have d: "length (Signers s) \<noteq> 0" by simp
  show ?thesis
    unfolding inturn_def Let_def using per d a b c by auto
qed

theorem C9_inturn_index_witness:
  "inturn snap_turn' 10 110 = Inr True \<and> inturn snap_turn' 11 110 = Inr False"
proof -
  have ne: "Signers snap_turn' \<noteq> []" by (simp add: snap_turn'_def)
  have per: "Period (config snap_turn') \<noteq> 0" by (simp add: snap_turn'_def cfg0_def)
  have le: "LoopStartTime snap_turn' \<le> 110" by (simp add: snap_turn'_def)
  have small: "(unat (110 :: uint64) - unat (LoopStartTime snap_turn'))
      div unat (Period (config snap_turn')) < 2 ^ 63"
    by (simp add: snap_turn'_def cfg0_def)
  from C9_inturn_index [OF ne per le small, of 10] C9_inturn_index [OF ne per le small, of 11]
  show ?thesis by (simp add: snap_turn'_def cfg0_def)
qed

theorem C9_inturn_wraps:
  "Signers snap_turn \<noteq> [] \<and>
   Signers snap_turn !
     nat ((uint (0 :: uint64) - uint (LoopStartTime snap_turn))
            div uint (Period (config snap_turn))
          mod int (length (Signers snap_turn))) = 12 \<and>
   inturn snap_turn 12 0 = Inr False \<and>
   inturn snap_turn 11 0 = Inr True"
  by (simp add: inturn_def go_rem_def snap_turn_def Let_def)

text \<open>
  C10. The reward step for a producer that has no entry in the punished map returns
  the map as it was; and for any producer, an address without an entry before the step
  has none after it, so the step never creates an entry.
\<close>

theorem C10_reward_unpunished:
  "(map_of ps coinbase = None \<longrightarrow> rewardSigner coinbase ps = ps) \<and>
   (map_of ps a = None \<longrightarrow> map_of (rewardSigner coinbase ps) a = None)"
proof (intro conjI impI)
  assume "map_of ps coinbase = None"
  then show "rewardSigner coinbase ps = ps" by (simp add: rewardSigner_def)
next
  assume a: "map_of ps a = None"
  show "map_of (rewardSigner coinbase ps) a = None"
  proof (cases "map_of ps coinbase")
    case None
    with a show ?thesis by (simp add: rewardSigner_def)
  next
    case (Some c)
    with a have "a \<noteq> coinbase" by auto
    with a Some show ?thesis
      by (simp add: rewardSigner_def Let_def update_conv' delete_conv')
  qed
qed

theorem C10_reward_unpunished_witness:
  "map_of [(1, 50 :: uint64)] (9 :: Address) = None \<and>
   rewardSigner 9 [(1, 50)] = [(1, 50)] \<and>
   map_of (rewardSigner 1 [(1, 50)]) 9 = None"
  using C10_reward_unpunished [of "[(1, 50)]" 9 9]
    C10_reward_unpunished [of "[(1, 50)]" 1 9]
  by simp

end
